theory Spec2Isabelle
  imports Main
begin

section \<open>Configuration (app.py, lines 12-19)\<close>

definition STATIONS :: "string list" where
  "STATIONS = [''KXMR'', ''KTTS'', ''X1K'', ''KCOF'', ''KMLB'', ''KTIX'']"

definition NBM_VERSIONS_TO_TRY :: "string list" where
  "NBM_VERSIONS_TO_TRY = [''NBM4.2'', ''NBM4.1'', ''NBM4.0'']"

definition DAYS_BACK :: nat where
  "DAYS_BACK = 3"

definition TIMEOUT :: nat where
  "TIMEOUT = 20"

text \<open>\<^verbatim>\<open>HOURS_DESC = list(range(23, -1, -1))\<close>: the hours 23, 22, ..., 0.\<close>

definition HOURS_DESC :: "int list" where
  "HOURS_DESC = rev [0..23]"

definition BASE :: string where
  "BASE = ''https://apps.gsl.noaa.gov/nbmviewer/data/archive''"

text \<open>The \<^verbatim>\<open>ttl=300\<close> argument of the \<^verbatim>\<open>st.cache_data\<close> decorator on
  \<^verbatim>\<open>url_exists\<close>, \<^verbatim>\<open>find_latest_csv\<close> and \<^verbatim>\<open>download_csv_bytes\<close>.\<close>

definition url_exists_ttl :: nat where
  "url_exists_ttl = 300"

definition find_latest_csv_ttl :: nat where
  "find_latest_csv_ttl = 300"

definition download_csv_bytes_ttl :: nat where
  "download_csv_bytes_ttl = 300"

section \<open>Python integer formatting\<close>

definition digit_char :: "nat \<Rightarrow> char" where
  "digit_char n = ''0123456789'' ! (n mod 10)"

text \<open>\<^verbatim>\<open>str(n)\<close> for a natural number: its decimal digits, most significant first.\<close>

fun str_nat :: "nat \<Rightarrow> string" where
  "str_nat n = (if n < 10 then [digit_char n] else str_nat (n div 10) @ [digit_char n])"

declare str_nat.simps [simp del]

definition zfill :: "nat \<Rightarrow> string \<Rightarrow> string" where
  "zfill w s = replicate (w - length s) (CHR ''0'') @ s"

text \<open>The format specification \<^verbatim>\<open>{n:0wd}\<close> of an f-string: decimal, padded with zeros
  after the sign to a minimum total width of \<open>w\<close> characters.\<close>

definition fmt_0d :: "nat \<Rightarrow> int \<Rightarrow> string" where
  "fmt_0d w n =
     (if n < 0 then CHR ''-'' # zfill (w - 1) (str_nat (nat (- n)))
      else zfill w (str_nat (nat n)))"

section \<open>build_url (app.py, lines 25-26)\<close>

definition build_url :: "int \<Rightarrow> int \<Rightarrow> int \<Rightarrow> int \<Rightarrow> string \<Rightarrow> string \<Rightarrow> string" where
  "build_url y m d hh nbm_version station =
     BASE @ ''/'' @ fmt_0d 4 y @ ''/'' @ fmt_0d 2 m @ ''/'' @ fmt_0d 2 d @ ''/'' @
     nbm_version @ ''/'' @ fmt_0d 2 hh @ ''/'' @ station @ ''.csv''"

section \<open>The outside world: calendar, network, CSV parser\<close>

text \<open>Exceptions are values. \<open>RequestException\<close> stands for whatever \<^verbatim>\<open>requests\<close> raises
  (connection errors, timeouts); \<open>HTTPError\<close> carries the status \<^verbatim>\<open>raise_for_status\<close>
  rejected; \<open>OverflowError\<close> is what date arithmetic raises below 0001-01-01;
  \<open>ParserError\<close> stands for whatever \<^verbatim>\<open>pd.read_csv\<close> raises.\<close>

datatype error =
    RequestException
  | RuntimeError string
  | HTTPError int
  | OverflowError
  | ParserError

text \<open>A \<^verbatim>\<open>datetime.date\<close>: year, month, day.\<close>

datatype date = Date (year_of: int) (month_of: int) (day_of: int)

definition is_leap :: "int \<Rightarrow> bool" where
  "is_leap y = (y mod 4 = 0 \<and> (y mod 400 = 0 \<or> y mod 100 \<noteq> 0))"

definition days_in_month :: "int \<Rightarrow> int \<Rightarrow> int" where
  "days_in_month y m =
     (if m = 2 then (if is_leap y then 29 else 28)
      else if m = 4 \<or> m = 6 \<or> m = 9 \<or> m = 11 then 30
      else 31)"

definition valid_date :: "date \<Rightarrow> bool" where
  "valid_date dt =
     (1 \<le> year_of dt \<and> year_of dt \<le> 9999 \<and> 1 \<le> month_of dt \<and> month_of dt \<le> 12 \<and>
      1 \<le> day_of dt \<and> day_of dt \<le> days_in_month (year_of dt) (month_of dt))"

text \<open>The calendar day before \<open>dt\<close> in the proleptic Gregorian calendar.\<close>

definition prev_day :: "date \<Rightarrow> date" where
  "prev_day dt =
     (if 1 < day_of dt then Date (year_of dt) (month_of dt) (day_of dt - 1)
      else if 1 < month_of dt
        then Date (year_of dt) (month_of dt - 1) (days_in_month (year_of dt) (month_of dt - 1))
      else Date (year_of dt - 1) 12 31)"

definition MINDATE :: date where
  "MINDATE = Date 1 1 1"

text \<open>\<^verbatim>\<open>dt - datetime.timedelta(days=n)\<close>: \<open>n\<close> days back, and OverflowError when that
  leaves the range of \<^verbatim>\<open>datetime.date\<close>, whose first day is 0001-01-01.\<close>

fun date_sub :: "date \<Rightarrow> nat \<Rightarrow> error + date" where
  "date_sub dt 0 = Inr dt"
| "date_sub dt (Suc n) = (if dt = MINDATE then Inl OverflowError else date_sub (prev_day dt) n)"

text \<open>A \<^verbatim>\<open>requests.Response\<close>, as far as the program reads it.\<close>

record response =
  status_code :: int
  content :: string

text \<open>What the program reads from outside: the UTC date of \<^verbatim>\<open>datetime.utcnow()\<close>, the
  outcome of \<^verbatim>\<open>requests.head(url, ...)\<close>, of the streaming \<^verbatim>\<open>requests.get\<close> inside
  \<^verbatim>\<open>url_exists\<close>, of the \<^verbatim>\<open>requests.get\<close> inside \<^verbatim>\<open>download_csv_bytes\<close>, and the
  shape (rows, columns) of the frame \<^verbatim>\<open>pd.read_csv\<close> parses. \<open>Inl\<close> is a raised
  exception.\<close>

record env =
  utcnow_date :: date
  requests_head :: "string \<Rightarrow> error + response"
  requests_get_stream :: "string \<Rightarrow> error + response"
  requests_get :: "string \<Rightarrow> error + response"
  read_csv :: "string \<Rightarrow> error + nat \<times> nat"

text \<open>\<^verbatim>\<open>Response.raise_for_status()\<close> of the requests library: HTTPError for a status in
  400..599, nothing otherwise.\<close>

definition raise_for_status :: "response \<Rightarrow> error + unit" where
  "raise_for_status r =
     (if 400 \<le> status_code r \<and> status_code r < 600 then Inl (HTTPError (status_code r))
      else Inr ())"

section \<open>url_exists (app.py, lines 29-47)\<close>

text \<open>The body of the outer \<^verbatim>\<open>try\<close>: the HEAD request and its three outcomes.\<close>

definition head_attempt :: "env \<Rightarrow> string \<Rightarrow> error + bool" where
  "head_attempt E u =
     (case requests_head E u of
        Inl e \<Rightarrow> Inl e
      | Inr r \<Rightarrow>
          if status_code r = 200 then Inr True
          else if status_code r = 403 \<or> status_code r = 405 then Inl (RuntimeError ''HEAD blocked'')
          else Inr False)"

text \<open>The body of the inner \<^verbatim>\<open>try\<close>: the fallback GET.\<close>

definition get_attempt :: "env \<Rightarrow> string \<Rightarrow> error + bool" where
  "get_attempt E u =
     (case requests_get_stream E u of
        Inl e \<Rightarrow> Inl e
      | Inr rg \<Rightarrow> Inr (status_code rg = 200))"

definition url_exists :: "env \<Rightarrow> string \<Rightarrow> bool" where
  "url_exists E u =
     (case head_attempt E u of
        Inr b \<Rightarrow> b
      | Inl _ \<Rightarrow> (case get_attempt E u of Inr b \<Rightarrow> b | Inl _ \<Rightarrow> False))"

section \<open>find_latest_csv (app.py, lines 50-71)\<close>

text \<open>The dictionary \<^verbatim>\<open>find_latest_csv\<close> returns.\<close>

record found =
  url :: string
  year :: int
  month :: int
  day :: int
  hour :: int
  version :: string

text \<open>The three nested loops, innermost first. Each threads the list of probes made so
  far: a probe is one call of \<^verbatim>\<open>url_exists\<close>, recorded with the key it was built from.
  A hit returns at once, through every enclosing loop.\<close>

fun versions_loop ::
  "env \<Rightarrow> int \<Rightarrow> int \<Rightarrow> int \<Rightarrow> int \<Rightarrow> string \<Rightarrow> string list \<Rightarrow> found list \<Rightarrow>
   found option \<times> found list" where
  "versions_loop E y m d hh station [] probes = (None, probes)"
| "versions_loop E y m d hh station (ver # vers) probes =
     (let u = build_url y m d hh ver station;
          probe = \<lparr>url = u, year = y, month = m, day = d, hour = hh, version = ver\<rparr>
      in if url_exists E u then (Some probe, probes @ [probe])
         else versions_loop E y m d hh station vers (probes @ [probe]))"

fun hours_loop ::
  "env \<Rightarrow> int \<Rightarrow> int \<Rightarrow> int \<Rightarrow> string \<Rightarrow> int list \<Rightarrow> found list \<Rightarrow>
   found option \<times> found list" where
  "hours_loop E y m d station [] probes = (None, probes)"
| "hours_loop E y m d station (hh # hhs) probes =
     (case versions_loop E y m d hh station NBM_VERSIONS_TO_TRY probes of
        (Some r, probes') \<Rightarrow> (Some r, probes')
      | (None, probes') \<Rightarrow> hours_loop E y m d station hhs probes')"

fun days_loop ::
  "env \<Rightarrow> date \<Rightarrow> string \<Rightarrow> nat list \<Rightarrow> found list \<Rightarrow>
   (error + found option) \<times> found list" where
  "days_loop E today_utc station [] probes = (Inr None, probes)"
| "days_loop E today_utc station (day_offset # offsets) probes =
     (case date_sub today_utc day_offset of
        Inl e \<Rightarrow> (Inl e, probes)
      | Inr dt \<Rightarrow>
          (case hours_loop E (year_of dt) (month_of dt) (day_of dt) station HOURS_DESC probes of
             (Some r, probes') \<Rightarrow> (Inr (Some r), probes')
           | (None, probes') \<Rightarrow> days_loop E today_utc station offsets probes'))"

text \<open>The result (an exception, \<open>None\<close> or the dictionary) and the probes made, in order.\<close>

definition find_latest_csv :: "env \<Rightarrow> string \<Rightarrow> (error + found option) \<times> found list" where
  "find_latest_csv E station = days_loop E (utcnow_date E) station [0..<DAYS_BACK] []"

section \<open>download_csv_bytes (app.py, lines 74-78)\<close>

definition download_csv_bytes :: "env \<Rightarrow> string \<Rightarrow> error + string" where
  "download_csv_bytes E u =
     (case requests_get E u of
        Inl e \<Rightarrow> Inl e
      | Inr r \<Rightarrow> (case raise_for_status r of Inl e \<Rightarrow> Inl e | Inr _ \<Rightarrow> Inr (content r)))"

section \<open>The button handler (app.py, lines 98-127)\<close>

text \<open>What the page shows after a click: the success line, the source URL, the shape of
  the parsed frame, and the download button's file name and data.\<close>

record page =
  success :: string
  source_url :: string
  shape :: "nat \<times> nat"
  file_name :: string
  data :: string

text \<open>The three ways a click ends: \<^verbatim>\<open>st.error\<close> followed by \<^verbatim>\<open>st.stop()\<close>, an
  exception that reaches the framework, or the rendered page.\<close>

datatype outcome =
    ErrorMessage string
  | Raised error
  | Rendered page

definition not_found_message :: "string \<Rightarrow> string" where
  "not_found_message station =
     ''No CSV found for '' @ station @ '' in the last '' @ str_nat DAYS_BACK @
     '' day(s). Try increasing DAYS_BACK.''"

definition success_message :: "found \<Rightarrow> string" where
  "success_message f =
     ''Found latest: '' @ fmt_0d 4 (year f) @ ''-'' @ fmt_0d 2 (month f) @ ''-'' @
     fmt_0d 2 (day f) @ '' '' @ fmt_0d 2 (hour f) @ ''Z ('' @ version f @ '')''"

definition filename :: "string \<Rightarrow> found \<Rightarrow> string" where
  "filename station f =
     station @ ''_'' @ fmt_0d 4 (year f) @ fmt_0d 2 (month f) @ fmt_0d 2 (day f) @
     fmt_0d 2 (hour f) @ ''_'' @ version f @ ''.csv''"

definition on_click :: "env \<Rightarrow> string \<Rightarrow> outcome" where
  "on_click E station =
     (case fst (find_latest_csv E station) of
        Inl e \<Rightarrow> Raised e
      | Inr None \<Rightarrow> ErrorMessage (not_found_message station)
      | Inr (Some f) \<Rightarrow>
          (case download_csv_bytes E (url f) of
             Inl e \<Rightarrow> Raised e
           | Inr csv_bytes \<Rightarrow>
               (case read_csv E csv_bytes of
                  Inl e \<Rightarrow> Raised e
                | Inr sh \<Rightarrow>
                    Rendered \<lparr>success = success_message f, source_url = url f, shape = sh,
                      file_name = filename station f, data = csv_bytes\<rparr>)))"

section \<open>Vocabulary of the specification\<close>

text \<open>A success status of HTTP: the class 2xx.\<close>

definition is_success :: "int \<Rightarrow> bool" where
  "is_success s = (200 \<le> s \<and> s < 300)"

text \<open>The date \<open>k\<close> days before \<open>today\<close>.\<close>

primrec day_back :: "date \<Rightarrow> nat \<Rightarrow> date" where
  "day_back today 0 = today"
| "day_back today (Suc k) = prev_day (day_back today k)"

text \<open>A search key (date, hour, version) of a station, with the one URL it maps to.\<close>

definition candidate :: "date \<Rightarrow> int \<Rightarrow> string \<Rightarrow> string \<Rightarrow> found" where
  "candidate dt hh ver station =
     \<lparr>url = build_url (year_of dt) (month_of dt) (day_of dt) hh ver station,
      year = year_of dt, month = month_of dt, day = day_of dt, hour = hh, version = ver\<rparr>"

text \<open>The bounded search space in its priority order: most recent date first, then
  highest hour first, then the versions as listed.\<close>

definition search_order :: "date \<Rightarrow> string \<Rightarrow> found list" where
  "search_order today station =
     [candidate (day_back today k) hh ver station.
        k \<leftarrow> [0..<DAYS_BACK], hh \<leftarrow> HOURS_DESC, ver \<leftarrow> NBM_VERSIONS_TO_TRY]"

text \<open>Scanning a list up to and including the first element that satisfies \<open>P\<close>.\<close>

fun probes_until :: "('a \<Rightarrow> bool) \<Rightarrow> 'a list \<Rightarrow> 'a list" where
  "probes_until P [] = []"
| "probes_until P (x # xs) = (if P x then [x] else x # probes_until P xs)"

definition exists_at :: "env \<Rightarrow> found \<Rightarrow> bool" where
  "exists_at E c = url_exists E (url c)"

text \<open>The (date, hour, version) key of a probe.\<close>

definition key_of :: "found \<Rightarrow> int \<times> int \<times> int \<times> int \<times> string" where
  "key_of p = (year p, month p, day p, hour p, version p)"

text \<open>Reading a decimal string back: the inverse of the formatting, used to show that
  distinct keys give distinct URLs.\<close>

definition digit_val :: "char \<Rightarrow> nat" where
  "digit_val c = of_char c - 48"

definition str_val :: "string \<Rightarrow> nat" where
  "str_val s = foldl (\<lambda>a c. 10 * a + digit_val c) 0 s"

text \<open>Calendar order: \<open>a\<close> is an earlier day than \<open>b\<close>.\<close>

definition date_before :: "date \<Rightarrow> date \<Rightarrow> bool" where
  "date_before a b =
     (year_of a < year_of b \<or>
      (year_of a = year_of b \<and>
       (month_of a < month_of b \<or> (month_of a = month_of b \<and> day_of a < day_of b))))"

text \<open>A number rendered as exactly two, and as exactly four, decimal digits.\<close>

definition two_digits :: "int \<Rightarrow> string" where
  "two_digits n = [digit_char (nat n div 10), digit_char (nat n)]"

definition four_digits :: "int \<Rightarrow> string" where
  "four_digits n =
     [digit_char (nat n div 1000), digit_char (nat n div 100), digit_char (nat n div 10),
      digit_char (nat n)]"

section \<open>Sample environments\<close>

text \<open>Every HEAD answers with status \<open>h\<close>, every fallback GET with \<open>g\<close>, every download
  GET with \<open>dl\<close>.\<close>

definition fixed_env :: "date \<Rightarrow> int \<Rightarrow> int \<Rightarrow> int \<Rightarrow> env" where
  "fixed_env today h g dl =
     \<lparr>utcnow_date = today,
      requests_head = (\<lambda>u. Inr \<lparr>status_code = h, content = ''''\<rparr>),
      requests_get_stream = (\<lambda>u. Inr \<lparr>status_code = g, content = ''''\<rparr>),
      requests_get = (\<lambda>u. Inr \<lparr>status_code = dl, content = ''a,b''\<rparr>),
      read_csv = (\<lambda>b. Inr (0, 2))\<rparr>"

text \<open>HEAD answers 200 for the listed URLs and 404 for every other; the fallback GET
  times out; the download GET answers 200.\<close>

definition listed_env :: "date \<Rightarrow> string list \<Rightarrow> env" where
  "listed_env today urls =
     \<lparr>utcnow_date = today,
      requests_head =
        (\<lambda>u. Inr \<lparr>status_code = (if u \<in> set urls then 200 else 404), content = ''''\<rparr>),
      requests_get_stream = (\<lambda>u. Inl RequestException),
      requests_get = (\<lambda>u. Inr \<lparr>status_code = 200, content = ''a,b''\<rparr>),
      read_csv = (\<lambda>b. Inr (0, 2))\<rparr>"

text \<open>Every request raises.\<close>

definition offline_env :: "date \<Rightarrow> env" where
  "offline_env today =
     \<lparr>utcnow_date = today,
      requests_head = (\<lambda>u. Inl RequestException),
      requests_get_stream = (\<lambda>u. Inl RequestException),
      requests_get = (\<lambda>u. Inl RequestException),
      read_csv = (\<lambda>b. Inl ParserError)\<rparr>"

section \<open>Basic facts\<close>

lemma HOURS_DESC_eq:
  "HOURS_DESC = [23, 22, 21, 20, 19, 18, 17, 16, 15, 14, 13, 12, 11, 10, 9, 8, 7, 6, 5, 4, 3, 2, 1, 0]"
  unfolding HOURS_DESC_def by code_simp

section \<open>Decimal formatting and the URL template\<close>

lemma digit_char_in: "digit_char n \<in> set ''0123456789''"
  unfolding digit_char_def by (rule nth_mem) simp

lemma digit_val_digit_char: "digit_val (digit_char n) = n mod 10"
proof -
  have "n mod 10 = 0 \<or> n mod 10 = 1 \<or> n mod 10 = 2 \<or> n mod 10 = 3 \<or> n mod 10 = 4 \<or>
    n mod 10 = 5 \<or> n mod 10 = 6 \<or> n mod 10 = 7 \<or> n mod 10 = 8 \<or> n mod 10 = 9"
    by presburger
  then show ?thesis
    unfolding digit_char_def digit_val_def by (elim disjE) simp_all
qed

lemma str_nat_digits: "set (str_nat n) \<subseteq> set ''0123456789''"
proof (induction n rule: str_nat.induct)
  case (1 n)
  show ?case
  proof (cases "n < 10")
    case True
    then show ?thesis using digit_char_in [of n] by (subst str_nat.simps) simp
  next
    case False
    then show ?thesis using 1 digit_char_in [of n] by (subst str_nat.simps) simp
  qed
qed

lemma str_nat_nonempty: "str_nat n \<noteq> []"
  by (subst str_nat.simps) simp

lemma str_val_snoc: "str_val (s @ [c]) = 10 * str_val s + digit_val c"
  by (simp add: str_val_def)

lemma str_val_str_nat: "str_val (str_nat n) = n"
proof (induction n rule: str_nat.induct)
  case (1 n)
  show ?case
  proof (cases "n < 10")
    case True
    then show ?thesis
      by (subst str_nat.simps) (simp add: str_val_def digit_val_digit_char)
  next
    case False
    then have "str_val (str_nat n) = 10 * str_val (str_nat (n div 10)) + digit_val (digit_char n)"
      by (subst str_nat.simps) (simp add: str_val_snoc)
    also have "\<dots> = 10 * (n div 10) + n mod 10"
      using 1 False by (simp add: digit_val_digit_char)
    finally show ?thesis by simp
  qed
qed

lemma str_val_zeros: "str_val (replicate k (CHR ''0'') @ s) = str_val s"
  by (induction k) (simp_all add: str_val_def digit_val_def)

lemma str_val_zfill: "str_val (zfill w (str_nat n)) = n"
  by (simp add: zfill_def str_val_zeros str_val_str_nat)

lemma zfill_digits: "set (zfill w (str_nat n)) \<subseteq> set ''0123456789''"
  using str_nat_digits [of n] by (auto simp: zfill_def)

lemma zfill_nonempty: "zfill w (str_nat n) \<noteq> []"
  by (simp add: zfill_def str_nat_nonempty)

lemma fmt_0d_chars: "set (fmt_0d w n) \<subseteq> insert (CHR ''-'') (set ''0123456789'')"
proof (cases "n < 0")
  case True
  then have "set (fmt_0d w n) = insert (CHR ''-'') (set (zfill (w - 1) (str_nat (nat (- n)))))"
    by (simp add: fmt_0d_def)
  then show ?thesis using zfill_digits [of "w - 1" "nat (- n)"] by blast
next
  case False
  then have "set (fmt_0d w n) = set (zfill w (str_nat (nat n)))"
    by (simp add: fmt_0d_def)
  then show ?thesis using zfill_digits [of w "nat n"] by blast
qed

lemma fmt_0d_no_slash: "CHR ''/'' \<notin> set (fmt_0d w n)"
proof -
  have "CHR ''/'' \<notin> insert (CHR ''-'') (set ''0123456789'')" by simp
  then show ?thesis using fmt_0d_chars [of w n] by blast
qed

lemma fmt_0d_inj:
  assumes "fmt_0d w n = fmt_0d w n'"
  shows "n = n'"
proof -
  have neg_hd: "hd (fmt_0d w k) = CHR ''-''" if "k < 0" for k
    using that by (simp add: fmt_0d_def)
  have pos_hd: "hd (fmt_0d w k) \<noteq> CHR ''-''" if "0 \<le> k" for k
  proof -
    have eq: "fmt_0d w k = zfill w (str_nat (nat k))"
      using that by (simp add: fmt_0d_def)
    have "hd (zfill w (str_nat (nat k))) \<in> set (zfill w (str_nat (nat k)))"
      using zfill_nonempty by (rule hd_in_set)
    then have "hd (zfill w (str_nat (nat k))) \<in> set ''0123456789''"
      using zfill_digits by blast
    moreover have "CHR ''-'' \<notin> set ''0123456789''" by simp
    ultimately show ?thesis unfolding eq by metis
  qed
  consider "n < 0" "n' < 0" | "0 \<le> n" "0 \<le> n'" | "n < 0" "0 \<le> n'" | "0 \<le> n" "n' < 0"
    by linarith
  then show ?thesis
  proof cases
    case 1
    then have "zfill (w - 1) (str_nat (nat (- n))) = zfill (w - 1) (str_nat (nat (- n')))"
      using assms by (simp add: fmt_0d_def)
    then have "nat (- n) = nat (- n')"
      by (metis str_val_zfill)
    then show ?thesis using 1 by simp
  next
    case 2
    then have "zfill w (str_nat (nat n)) = zfill w (str_nat (nat n'))"
      using assms by (simp add: fmt_0d_def)
    then have "nat n = nat n'"
      by (metis str_val_zfill)
    then show ?thesis using 2 by simp
  next
    case 3
    then show ?thesis using neg_hd [of n] pos_hd [of n'] assms by simp
  next
    case 4
    then show ?thesis using neg_hd [of n'] pos_hd [of n] assms by simp
  qed
qed

lemma split_at_slash:
  assumes "CHR ''/'' \<notin> set a" and "CHR ''/'' \<notin> set a'"
    and "a @ CHR ''/'' # r = a' @ CHR ''/'' # r'"
  shows "a = a' \<and> r = r'"
  using assms
proof (induction a arbitrary: a')
  case Nil
  then show ?case by (cases a') auto
next
  case (Cons x a)
  then show ?case by (cases a') auto
qed

lemma five_fields_inj:
  assumes "CHR ''/'' \<notin> set a1" "CHR ''/'' \<notin> set b1"
    and "CHR ''/'' \<notin> set a2" "CHR ''/'' \<notin> set b2"
    and "CHR ''/'' \<notin> set a3" "CHR ''/'' \<notin> set b3"
    and "CHR ''/'' \<notin> set a4" "CHR ''/'' \<notin> set b4"
    and "CHR ''/'' \<notin> set a5" "CHR ''/'' \<notin> set b5"
    and eq: "a1 @ CHR ''/'' # a2 @ CHR ''/'' # a3 @ CHR ''/'' # a4 @ CHR ''/'' # a5 @ CHR ''/'' # r =
      b1 @ CHR ''/'' # b2 @ CHR ''/'' # b3 @ CHR ''/'' # b4 @ CHR ''/'' # b5 @ CHR ''/'' # r'"
  shows "a1 = b1 \<and> a2 = b2 \<and> a3 = b3 \<and> a4 = b4 \<and> a5 = b5"
proof -
  from split_at_slash [OF assms(1,2) eq]
  have 1: "a1 = b1"
    and e2: "a2 @ CHR ''/'' # a3 @ CHR ''/'' # a4 @ CHR ''/'' # a5 @ CHR ''/'' # r =
      b2 @ CHR ''/'' # b3 @ CHR ''/'' # b4 @ CHR ''/'' # b5 @ CHR ''/'' # r'"
    by blast+
  from split_at_slash [OF assms(3,4) e2]
  have 2: "a2 = b2"
    and e3: "a3 @ CHR ''/'' # a4 @ CHR ''/'' # a5 @ CHR ''/'' # r =
      b3 @ CHR ''/'' # b4 @ CHR ''/'' # b5 @ CHR ''/'' # r'"
    by blast+
  from split_at_slash [OF assms(5,6) e3]
  have 3: "a3 = b3"
    and e4: "a4 @ CHR ''/'' # a5 @ CHR ''/'' # r = b4 @ CHR ''/'' # b5 @ CHR ''/'' # r'"
    by blast+
  from split_at_slash [OF assms(7,8) e4]
  have 4: "a4 = b4" and e5: "a5 @ CHR ''/'' # r = b5 @ CHR ''/'' # r'"
    by blast+
  from split_at_slash [OF assms(9,10) e5]
  have 5: "a5 = b5"
    by blast
  from 1 2 3 4 5 show ?thesis by blast
qed

lemma build_url_inj:
  assumes v: "CHR ''/'' \<notin> set v" and v': "CHR ''/'' \<notin> set v'"
    and eq: "build_url y m d hh v s = build_url y' m' d' hh' v' s'"
  shows "y = y' \<and> m = m' \<and> d = d' \<and> hh = hh' \<and> v = v'"
proof -
  have shape: "build_url a b c e f g =
      BASE @ CHR ''/'' # fmt_0d 4 a @ CHR ''/'' # fmt_0d 2 b @ CHR ''/'' # fmt_0d 2 c @ CHR ''/'' #
        f @ CHR ''/'' # fmt_0d 2 e @ CHR ''/'' # (g @ ''.csv'')" for a b c e f g
    by (simp add: build_url_def)
  from eq have "fmt_0d 4 y @ CHR ''/'' # fmt_0d 2 m @ CHR ''/'' # fmt_0d 2 d @ CHR ''/'' #
        v @ CHR ''/'' # fmt_0d 2 hh @ CHR ''/'' # (s @ ''.csv'') =
      fmt_0d 4 y' @ CHR ''/'' # fmt_0d 2 m' @ CHR ''/'' # fmt_0d 2 d' @ CHR ''/'' #
        v' @ CHR ''/'' # fmt_0d 2 hh' @ CHR ''/'' # (s' @ ''.csv'')"
    unfolding shape by (simp only: same_append_eq list.inject simp_thms)
  from five_fields_inj [OF fmt_0d_no_slash fmt_0d_no_slash fmt_0d_no_slash fmt_0d_no_slash
      fmt_0d_no_slash fmt_0d_no_slash v v' fmt_0d_no_slash fmt_0d_no_slash this]
  have "fmt_0d 4 y = fmt_0d 4 y'" "fmt_0d 2 m = fmt_0d 2 m'" "fmt_0d 2 d = fmt_0d 2 d'"
    "v = v'" "fmt_0d 2 hh = fmt_0d 2 hh'"
    by blast+
  then show ?thesis
    by (blast dest: fmt_0d_inj)
qed

section \<open>The loops as a scan of one list\<close>

lemma find_append_case:
  "find P (xs @ ys) = (case find P xs of Some x \<Rightarrow> Some x | None \<Rightarrow> find P ys)"
  by (induction xs) auto

lemma probes_until_append:
  "probes_until P (xs @ ys) =
     (case find P xs of Some x \<Rightarrow> probes_until P xs | None \<Rightarrow> xs @ probes_until P ys)"
  by (induction xs) (auto split: option.splits)

lemma probes_until_none:
  "find P xs = None \<Longrightarrow> probes_until P xs = xs"
  by (induction xs) (auto split: if_splits)

lemma versions_loop_eq:
  "versions_loop E y m d hh station vers probes =
     (find (exists_at E) (map (\<lambda>ver. candidate (Date y m d) hh ver station) vers),
      probes @ probes_until (exists_at E) (map (\<lambda>ver. candidate (Date y m d) hh ver station) vers))"
  by (induction vers arbitrary: probes) (auto simp: Let_def exists_at_def candidate_def)

lemma hours_loop_eq:
  "hours_loop E y m d station hhs probes =
     (find (exists_at E)
        (concat (map (\<lambda>hh. map (\<lambda>ver. candidate (Date y m d) hh ver station) NBM_VERSIONS_TO_TRY) hhs)),
      probes @ probes_until (exists_at E)
        (concat (map (\<lambda>hh. map (\<lambda>ver. candidate (Date y m d) hh ver station) NBM_VERSIONS_TO_TRY) hhs)))"
proof (induction hhs arbitrary: probes)
  case Nil
  show ?case by simp
next
  case (Cons hh hhs)
  show ?case
    by (simp add: versions_loop_eq Cons.IH find_append_case probes_until_append probes_until_none
        split: option.splits)
qed

lemma days_loop_eq:
  assumes "\<forall>k \<in> set offsets. date_sub today k = Inr (day_back today k)"
  shows "days_loop E today station offsets probes =
     (Inr (find (exists_at E)
        [candidate (day_back today k) hh ver station.
           k \<leftarrow> offsets, hh \<leftarrow> HOURS_DESC, ver \<leftarrow> NBM_VERSIONS_TO_TRY]),
      probes @ probes_until (exists_at E)
        [candidate (day_back today k) hh ver station.
           k \<leftarrow> offsets, hh \<leftarrow> HOURS_DESC, ver \<leftarrow> NBM_VERSIONS_TO_TRY])"
  using assms
proof (induction offsets arbitrary: probes)
  case Nil
  show ?case by simp
next
  case (Cons k offsets)
  have dt: "date_sub today k = Inr (day_back today k)"
    using Cons.prems by simp
  have rest: "\<forall>k \<in> set offsets. date_sub today k = Inr (day_back today k)"
    using Cons.prems by simp
  show ?case
    by (simp add: dt hours_loop_eq Cons.IH [OF rest] find_append_case probes_until_append
        probes_until_none split: option.splits)
qed

lemma date_sub_day_back:
  "(\<forall>j<k. day_back today j \<noteq> MINDATE) \<Longrightarrow> date_sub today k = Inr (day_back today k)"
proof (induction k arbitrary: today)
  case 0
  show ?case by simp
next
  case (Suc k)
  have shift: "day_back (prev_day today) j = day_back today (Suc j)" for j
    by (induction j) simp_all
  have "today \<noteq> MINDATE" using Suc.prems [rule_format, of 0] by simp
  moreover have "date_sub (prev_day today) k = Inr (day_back (prev_day today) k)"
  proof (rule Suc.IH)
    show "\<forall>j<k. day_back (prev_day today) j \<noteq> MINDATE"
    proof (intro allI impI)
      fix j assume "j < k"
      then have "day_back today (Suc j) \<noteq> MINDATE" using Suc.prems by blast
      then show "day_back (prev_day today) j \<noteq> MINDATE" unfolding shift .
    qed
  qed
  ultimately show ?case by (simp add: shift)
qed

lemma no_overflow:
  assumes "1 < year_of today" and "k < DAYS_BACK"
  shows "date_sub today k = Inr (day_back today k)"
proof (rule date_sub_day_back, intro allI impI)
  fix j assume "j < k"
  then have "j = 0 \<or> j = 1" using assms(2) by (auto simp: DAYS_BACK_def)
  then show "day_back today j \<noteq> MINDATE"
    using assms(1) by (cases today) (auto simp: MINDATE_def prev_day_def split: if_splits)
qed

lemma find_latest_csv_eq:
  assumes "1 < year_of (utcnow_date E)"
  shows "find_latest_csv E station =
     (Inr (find (exists_at E) (search_order (utcnow_date E) station)),
      probes_until (exists_at E) (search_order (utcnow_date E) station))"
proof -
  have "\<forall>k \<in> set [0..<DAYS_BACK]. date_sub (utcnow_date E) k = Inr (day_back (utcnow_date E) k)"
    using no_overflow [OF assms] by simp
  from days_loop_eq [OF this] show ?thesis
    by (simp add: find_latest_csv_def search_order_def)
qed


lemma probes_until_take:
  "probes_until P xs = take (length (probes_until P xs)) xs"
  by (induction xs) auto

lemma length_probes_until_le:
  "length (probes_until P xs) \<le> length xs"
  by (induction xs) auto

lemma day_back_shift: "day_back (prev_day today) j = day_back today (Suc j)"
  by (induction j) simp_all

lemma date_sub_Inr:
  "date_sub today k = Inr dt \<Longrightarrow> dt = day_back today k"
proof (induction k arbitrary: today)
  case 0
  then show ?case by simp
next
  case (Suc k)
  from Suc.prems have "date_sub (prev_day today) k = Inr dt"
    by (simp split: if_splits)
  then have "dt = day_back (prev_day today) k" by (rule Suc.IH)
  then show ?case unfolding day_back_shift .
qed

lemma days_loop_prefix:
  "\<exists>n. snd (days_loop E today station offsets probes) =
     probes @ take n [candidate (day_back today k) hh ver station.
           k \<leftarrow> offsets, hh \<leftarrow> HOURS_DESC, ver \<leftarrow> NBM_VERSIONS_TO_TRY]"
proof (induction offsets arbitrary: probes)
  case Nil
  show ?case by simp
next
  case (Cons k offsets)
  let ?hc = "concat (map (\<lambda>hh. map (\<lambda>ver. candidate (day_back today k) hh ver station)
      NBM_VERSIONS_TO_TRY) HOURS_DESC)"
  let ?rest = "[candidate (day_back today k) hh ver station.
           k \<leftarrow> offsets, hh \<leftarrow> HOURS_DESC, ver \<leftarrow> NBM_VERSIONS_TO_TRY]"
  have all: "[candidate (day_back today k) hh ver station.
           k \<leftarrow> k # offsets, hh \<leftarrow> HOURS_DESC, ver \<leftarrow> NBM_VERSIONS_TO_TRY] = ?hc @ ?rest"
    by simp
  show ?case
  proof (cases "date_sub today k")
    case (Inl e)
    then have "snd (days_loop E today station (k # offsets) probes) = probes @ take 0 (?hc @ ?rest)"
      by simp
    then show ?thesis unfolding all by blast
  next
    case (Inr dt)
    then have dt: "dt = day_back today k" by (rule date_sub_Inr)
    have sub: "date_sub today k = Inr (day_back today k)"
      using Inr dt by simp
    show ?thesis
    proof (cases "find (exists_at E) ?hc")
      case (Some r)
      have "snd (days_loop E today station (k # offsets) probes) = probes @ probes_until (exists_at E) ?hc"
        using sub Some by (simp add: hours_loop_eq)
      also have "probes_until (exists_at E) ?hc = take (length (probes_until (exists_at E) ?hc)) ?hc"
        by (rule probes_until_take)
      also have "\<dots> = take (length (probes_until (exists_at E) ?hc)) (?hc @ ?rest)"
        by (simp add: length_probes_until_le)
      finally show ?thesis unfolding all by blast
    next
      case None
      obtain n where n: "snd (days_loop E today station offsets (probes @ ?hc)) = (probes @ ?hc) @ take n ?rest"
        using Cons.IH by blast
      have "snd (days_loop E today station (k # offsets) probes) = snd (days_loop E today station offsets (probes @ ?hc))"
        using sub None by (simp add: hours_loop_eq probes_until_none)
      also have "\<dots> = probes @ take (length ?hc + n) (?hc @ ?rest)"
        using n by simp
      finally show ?thesis unfolding all by blast
    qed
  qed
qed

lemma find_latest_csv_probes_prefix:
  "\<exists>n. snd (find_latest_csv E station) = take n (search_order (utcnow_date E) station)"
  using days_loop_prefix [of E "utcnow_date E" station "[0..<DAYS_BACK]" "[]"]
  by (simp add: find_latest_csv_def search_order_def)

section \<open>The search space\<close>

lemma prev_day_before: "date_before (prev_day dt) dt"
  by (cases dt) (simp add: prev_day_def date_before_def)

lemma date_before_trans: "date_before a b \<Longrightarrow> date_before b c \<Longrightarrow> date_before a c"
  unfolding date_before_def by linarith

lemma date_before_irrefl: "\<not> date_before a a"
  by (simp add: date_before_def)

lemma day_back_before: "date_before (day_back today (k + Suc j)) (day_back today k)"
proof (induction j)
  case 0
  show ?case by (simp add: prev_day_before)
next
  case (Suc j)
  have "date_before (day_back today (k + Suc (Suc j))) (day_back today (k + Suc j))"
    by (simp add: prev_day_before)
  then show ?case using Suc by (rule date_before_trans)
qed

lemma day_back_less: "k < k' \<Longrightarrow> date_before (day_back today k') (day_back today k)"
  using day_back_before [of today k "k' - Suc k"] by simp

lemma day_back_inj: "day_back today k = day_back today k' \<Longrightarrow> k = k'"
  using day_back_less [of k k' today] day_back_less [of k' k today] date_before_irrefl
  by (metis linorder_neqE_nat)

lemma inner_product:
  "concat (map (\<lambda>y. map (g y) zs) ys) = map (\<lambda>(y, z). g y z) (List.product ys zs)"
  by (induction ys) simp_all

lemma comprehension_product:
  "concat (map (\<lambda>x. concat (map (\<lambda>y. map (f x y) zs) ys)) xs) =
     map (\<lambda>(x, y, z). f x y z) (List.product xs (List.product ys zs))"
  by (induction xs) (simp_all add: inner_product)

lemma search_order_product:
  "search_order today station =
     map (\<lambda>(k, hh, ver). candidate (day_back today k) hh ver station)
       (List.product [0..<DAYS_BACK] (List.product HOURS_DESC NBM_VERSIONS_TO_TRY))"
  unfolding search_order_def by (rule comprehension_product)

lemma distinct_keys_space:
  "distinct (List.product [0..<DAYS_BACK] (List.product HOURS_DESC NBM_VERSIONS_TO_TRY))"
  by (intro distinct_product) (simp_all add: HOURS_DESC_def NBM_VERSIONS_TO_TRY_def)

lemma length_search_order: "length (search_order today station) = 216"
  by (simp add: search_order_product HOURS_DESC_def NBM_VERSIONS_TO_TRY_def DAYS_BACK_def)

lemma versions_no_slash: "ver \<in> set NBM_VERSIONS_TO_TRY \<Longrightarrow> CHR ''/'' \<notin> set ver"
  by (auto simp: NBM_VERSIONS_TO_TRY_def)

lemma key_of_candidate:
  "key_of (candidate dt hh ver station) = (year_of dt, month_of dt, day_of dt, hh, ver)"
  by (simp add: key_of_def candidate_def)

lemma url_candidate:
  "url (candidate dt hh ver station) = build_url (year_of dt) (month_of dt) (day_of dt) hh ver station"
  by (simp add: candidate_def)

lemma distinct_keys_search_order: "distinct (map key_of (search_order today station))"
proof -
  have "inj_on (\<lambda>(k, hh, ver). key_of (candidate (day_back today k) hh ver station)) A" for A
    by (rule inj_onI) (auto simp: key_of_candidate intro!: day_back_inj date.expand)
  then show ?thesis
    unfolding search_order_product
    by (simp add: distinct_map distinct_keys_space o_def case_prod_unfold inj_on_def)
qed

lemma distinct_urls_search_order: "distinct (map url (search_order today station))"
proof -
  let ?S = "set (List.product [0..<DAYS_BACK] (List.product HOURS_DESC NBM_VERSIONS_TO_TRY))"
  have "inj_on (\<lambda>(k, hh, ver). url (candidate (day_back today k) hh ver station)) ?S"
    unfolding inj_on_def
  proof (intro ballI impI)
    fix x y
    assume x: "x \<in> ?S" and y: "y \<in> ?S"
      and eq: "(case x of (k, hh, ver) \<Rightarrow> url (candidate (day_back today k) hh ver station)) =
        (case y of (k, hh, ver) \<Rightarrow> url (candidate (day_back today k) hh ver station))"
    obtain k hh ver where X: "x = (k, hh, ver)" by (rule prod_cases3)
    obtain k' hh' ver' where Y: "y = (k', hh', ver')" by (rule prod_cases3)
    have ver: "ver \<in> set NBM_VERSIONS_TO_TRY" using x X by simp
    have ver': "ver' \<in> set NBM_VERSIONS_TO_TRY" using y Y by simp
    have "build_url (year_of (day_back today k)) (month_of (day_back today k))
        (day_of (day_back today k)) hh ver station =
      build_url (year_of (day_back today k')) (month_of (day_back today k'))
        (day_of (day_back today k')) hh' ver' station"
      using eq X Y by (simp add: url_candidate)
    from build_url_inj [OF versions_no_slash [OF ver] versions_no_slash [OF ver'] this]
    have "day_back today k = day_back today k'" and "hh = hh'" and "ver = ver'"
      by (auto intro: date.expand)
    then show "x = y"
      using X Y by (auto dest: day_back_inj)
  qed
  then show ?thesis
    unfolding search_order_product
    by (simp add: distinct_map distinct_keys_space o_def case_prod_unfold)
qed

lemma set_search_order:
  "set (search_order today station) =
     {candidate (day_back today k) hh ver station | k hh ver.
        k < DAYS_BACK \<and> 0 \<le> hh \<and> hh \<le> 23 \<and> ver \<in> set NBM_VERSIONS_TO_TRY}"
proof -
  have "set (List.product [0..<DAYS_BACK] (List.product HOURS_DESC NBM_VERSIONS_TO_TRY)) =
      {(k, hh, ver). k < DAYS_BACK \<and> 0 \<le> hh \<and> hh \<le> 23 \<and> ver \<in> set NBM_VERSIONS_TO_TRY}"
    by (auto simp: HOURS_DESC_def)
  then show ?thesis
    unfolding search_order_product set_map by (simp add: image_def) blast
qed

lemma search_order_nth:
  assumes "k < DAYS_BACK" and "0 \<le> hh" and "hh \<le> 23" and "v < length NBM_VERSIONS_TO_TRY"
  shows "search_order today station ! (72 * k + 3 * nat (23 - hh) + v) =
     candidate (day_back today k) hh (NBM_VERSIONS_TO_TRY ! v) station"
proof -
  define q where "q = nat (23 - hh)"
  have v: "v < 3" using assms(4) by (simp add: NBM_VERSIONS_TO_TRY_def)
  have q: "q < 24" using assms(2,3) by (simp add: q_def)
  have k: "k < 3" using assms(1) by (simp add: DAYS_BACK_def)
  have r: "3 * q + v < 72" using q v by linarith
  have n: "72 * k + (3 * q + v) < 216" using k r by linarith
  have lens: "length HOURS_DESC = 24" "length NBM_VERSIONS_TO_TRY = 3"
    by (simp_all add: HOURS_DESC_def NBM_VERSIONS_TO_TRY_def)
  have d1: "(72 * k + (3 * q + v)) div 72 = k" using r by simp
  have d2: "(72 * k + (3 * q + v)) mod 72 = 3 * q + v" using r by simp
  have d3: "(3 * q + v) div 3 = q" using v by simp
  have d4: "(3 * q + v) mod 3 = v" using v by simp
  have hour: "HOURS_DESC ! q = hh"
    using assms(2,3) by (simp add: HOURS_DESC_def rev_nth q_def)
  have "List.product [0..<DAYS_BACK] (List.product HOURS_DESC NBM_VERSIONS_TO_TRY) !
      (72 * k + (3 * q + v)) = (k, hh, NBM_VERSIONS_TO_TRY ! v)"
    using n k r v by (simp add: List.product_nth lens d1 d2 d3 d4 hour DAYS_BACK_def)
  then show ?thesis
    using n by (simp add: search_order_product lens DAYS_BACK_def q_def add.assoc)
qed

section \<open>The existence check\<close>

lemma url_exists_iff:
  "url_exists E u =
     (case requests_head E u of
        Inr r \<Rightarrow> status_code r = 200 \<or>
          ((status_code r = 403 \<or> status_code r = 405) \<and>
           (case requests_get_stream E u of Inr rg \<Rightarrow> status_code rg = 200 | Inl _ \<Rightarrow> False))
      | Inl _ \<Rightarrow> (case requests_get_stream E u of Inr rg \<Rightarrow> status_code rg = 200 | Inl _ \<Rightarrow> False))"
  by (auto simp: url_exists_def head_attempt_def get_attempt_def split: sum.splits)

text \<open>Claim C9. The existence check answers true only when a response had status exactly
  200, on the HEAD request or on the fallback GET. Any other success status (201, 204,
  ...) on the HEAD request yields false, and so does any other success status on the
  fallback GET when the HEAD request did not itself answer 200.\<close>

theorem url_exists_only_200:
  "(url_exists E u \<longrightarrow>
      (\<exists>r. requests_head E u = Inr r \<and> status_code r = 200) \<or>
      (\<exists>rg. requests_get_stream E u = Inr rg \<and> status_code rg = 200)) \<and>
   (requests_head E u = Inr r \<and> is_success (status_code r) \<and> status_code r \<noteq> 200
      \<longrightarrow> \<not> url_exists E u) \<and>
   (requests_get_stream E u = Inr rg \<and> is_success (status_code rg) \<and> status_code rg \<noteq> 200 \<and>
    (\<forall>r. requests_head E u = Inr r \<longrightarrow> status_code r \<noteq> 200)
      \<longrightarrow> \<not> url_exists E u)"
  by (auto simp: url_exists_iff is_success_def split: sum.splits)

theorem url_exists_only_200_witness:
  "\<not> url_exists (fixed_env (Date 2024 3 1) 201 200 200) ''u'' \<and>
   \<not> url_exists (fixed_env (Date 2024 3 1) 405 204 200) ''u''"
  using url_exists_only_200 [of "fixed_env (Date 2024 3 1) 201 200 200" "''u''"
      "\<lparr>status_code = 201, content = ''''\<rparr>" "\<lparr>status_code = 200, content = ''''\<rparr>"]
    url_exists_only_200 [of "fixed_env (Date 2024 3 1) 405 204 200" "''u''"
      "\<lparr>status_code = 405, content = ''''\<rparr>" "\<lparr>status_code = 204, content = ''''\<rparr>"]
  by (simp add: fixed_env_def is_success_def)

section \<open>The search\<close>

lemma first_hit:
  assumes "i < length xs" and "P (xs ! i)" and "\<forall>j<i. \<not> P (xs ! j)"
  shows "find P xs = Some (xs ! i) \<and> probes_until P xs = take (Suc i) xs"
  using assms
proof (induction xs arbitrary: i)
  case Nil
  then show ?case by simp
next
  case (Cons x xs)
  show ?case
  proof (cases i)
    case 0
    then show ?thesis using Cons.prems by simp
  next
    case (Suc i')
    have nx: "\<not> P x" using Cons.prems(3) Suc by auto
    have "find P xs = Some (xs ! i') \<and> probes_until P xs = take (Suc i') xs"
    proof (rule Cons.IH)
      show "i' < length xs" using Cons.prems(1) Suc by simp
      show "P (xs ! i')" using Cons.prems(2) Suc by simp
      show "\<forall>j<i'. \<not> P (xs ! j)"
      proof (intro allI impI)
        fix j assume "j < i'"
        then have "Suc j < i" using Suc by simp
        then have "\<not> P ((x # xs) ! Suc j)" using Cons.prems(3) by blast
        then show "\<not> P (xs ! j)" by simp
      qed
    qed
    then show ?thesis using nx Suc by simp
  qed
qed

text \<open>Claim C1. The search scans the candidates in the priority order \<open>search_order\<close>:
  day offset 0, 1, 2, within a day the hours 23 down to 0, within an hour the versions as
  listed; the candidate of day offset \<open>k\<close>, hour \<open>hh\<close> and version number \<open>v\<close> stands at
  position \<open>72 k + 3 (23 - hh) + v\<close>. Day offset 0 is today, and each further offset is the
  calendar day before the previous one, a strictly earlier date. The first candidate in
  this order whose URL the existence check confirms is returned, and the probes made are
  exactly the candidates up to and including it: none after the hit.\<close>

theorem find_latest_csv_priority_order:
  assumes "1 < year_of (utcnow_date E)"
    and "i < length (search_order (utcnow_date E) station)"
    and "url_exists E (url (search_order (utcnow_date E) station ! i))"
    and "\<forall>j<i. \<not> url_exists E (url (search_order (utcnow_date E) station ! j))"
  shows "find_latest_csv E station =
      (Inr (Some (search_order (utcnow_date E) station ! i)),
       take (Suc i) (search_order (utcnow_date E) station)) \<and>
    length (search_order (utcnow_date E) station) = 216 \<and>
    (\<forall>k hh v. k < DAYS_BACK \<and> 0 \<le> hh \<and> hh \<le> 23 \<and> v < length NBM_VERSIONS_TO_TRY \<longrightarrow>
       search_order (utcnow_date E) station ! (72 * k + 3 * nat (23 - hh) + v) =
       candidate (day_back (utcnow_date E) k) hh (NBM_VERSIONS_TO_TRY ! v) station) \<and>
    day_back (utcnow_date E) 0 = utcnow_date E \<and>
    (\<forall>k. day_back (utcnow_date E) (Suc k) = prev_day (day_back (utcnow_date E) k) \<and>
       date_before (day_back (utcnow_date E) (Suc k)) (day_back (utcnow_date E) k))"
proof -
  have "find (exists_at E) (search_order (utcnow_date E) station) =
      Some (search_order (utcnow_date E) station ! i) \<and>
    probes_until (exists_at E) (search_order (utcnow_date E) station) =
      take (Suc i) (search_order (utcnow_date E) station)"
    using assms(2-4) by (intro first_hit) (simp_all add: exists_at_def)
  then have "find_latest_csv E station =
      (Inr (Some (search_order (utcnow_date E) station ! i)),
       take (Suc i) (search_order (utcnow_date E) station))"
    by (simp only: find_latest_csv_eq [OF assms(1)])
  moreover have "day_back (utcnow_date E) 0 = utcnow_date E" by simp
  moreover have "day_back (utcnow_date E) (Suc k) = prev_day (day_back (utcnow_date E) k) \<and>
      date_before (day_back (utcnow_date E) (Suc k)) (day_back (utcnow_date E) k)" for k
    by (simp add: prev_day_before)
  ultimately show ?thesis
    using length_search_order search_order_nth by blast
qed

subsection \<open>A sample run\<close>

lemma offsets_eq: "[0..<DAYS_BACK] = [0, 1, 2]"
  by (simp add: DAYS_BACK_def upt_rec)

lemma search_order_days:
  "search_order today station =
     [candidate dt hh ver station.
        dt \<leftarrow> [today, prev_day today, prev_day (prev_day today)],
        hh \<leftarrow> HOURS_DESC, ver \<leftarrow> NBM_VERSIONS_TO_TRY]"
  by (simp add: search_order_def offsets_eq numeral_2_eq_2)

lemmas run_defs = search_order_days HOURS_DESC_eq NBM_VERSIONS_TO_TRY_def candidate_def
  build_url_def BASE_def fmt_0d_def zfill_def str_nat.simps digit_char_def prev_day_def
  days_in_month_def is_leap_def

lemma sample_order:
  "take 5 (search_order (Date 2024 3 1) ''KXMR'') =
    [\<lparr>url = ''https://apps.gsl.noaa.gov/nbmviewer/data/archive/2024/03/01/NBM4.2/23/KXMR.csv'',
       year = 2024, month = 3, day = 1, hour = 23, version = ''NBM4.2''\<rparr>,
     \<lparr>url = ''https://apps.gsl.noaa.gov/nbmviewer/data/archive/2024/03/01/NBM4.1/23/KXMR.csv'',
       year = 2024, month = 3, day = 1, hour = 23, version = ''NBM4.1''\<rparr>,
     \<lparr>url = ''https://apps.gsl.noaa.gov/nbmviewer/data/archive/2024/03/01/NBM4.0/23/KXMR.csv'',
       year = 2024, month = 3, day = 1, hour = 23, version = ''NBM4.0''\<rparr>,
     \<lparr>url = ''https://apps.gsl.noaa.gov/nbmviewer/data/archive/2024/03/01/NBM4.2/22/KXMR.csv'',
       year = 2024, month = 3, day = 1, hour = 22, version = ''NBM4.2''\<rparr>,
     \<lparr>url = ''https://apps.gsl.noaa.gov/nbmviewer/data/archive/2024/03/01/NBM4.1/22/KXMR.csv'',
       year = 2024, month = 3, day = 1, hour = 22, version = ''NBM4.1''\<rparr>]"
  by (simp add: run_defs)

lemma url_exists_listed_env: "url_exists (listed_env today urls) u = (u \<in> set urls)"
  by (simp add: url_exists_iff listed_env_def)

lemma nth_via_take: "j < n \<Longrightarrow> xs ! j = take n xs ! j"
  by simp

lemma sample_days:
  "day_back (Date 2024 3 1) 1 = Date 2024 2 29" "day_back (Date 2024 3 1) 2 = Date 2024 2 28"
  by (simp_all add: numeral_2_eq_2 prev_day_def days_in_month_def is_leap_def)

lemma sample_candidates:
  "candidate (Date 2024 3 1) 23 ''NBM4.2'' ''KXMR'' =
     \<lparr>url = ''https://apps.gsl.noaa.gov/nbmviewer/data/archive/2024/03/01/NBM4.2/23/KXMR.csv'',
      year = 2024, month = 3, day = 1, hour = 23, version = ''NBM4.2''\<rparr>"
  "candidate (Date 2024 2 29) 23 ''NBM4.2'' ''KXMR'' =
     \<lparr>url = ''https://apps.gsl.noaa.gov/nbmviewer/data/archive/2024/02/29/NBM4.2/23/KXMR.csv'',
      year = 2024, month = 2, day = 29, hour = 23, version = ''NBM4.2''\<rparr>"
  "candidate (Date 2024 2 29) 14 ''NBM4.1'' ''KXMR'' =
     \<lparr>url = ''https://apps.gsl.noaa.gov/nbmviewer/data/archive/2024/02/29/NBM4.1/14/KXMR.csv'',
      year = 2024, month = 2, day = 29, hour = 14, version = ''NBM4.1''\<rparr>"
  "candidate (Date 2024 2 28) 23 ''NBM4.2'' ''KXMR'' =
     \<lparr>url = ''https://apps.gsl.noaa.gov/nbmviewer/data/archive/2024/02/28/NBM4.2/23/KXMR.csv'',
      year = 2024, month = 2, day = 28, hour = 23, version = ''NBM4.2''\<rparr>"
  by (simp_all add: candidate_def build_url_def BASE_def fmt_0d_def zfill_def str_nat.simps
      digit_char_def)

lemma sample_positions:
  "search_order (Date 2024 3 1) ''KXMR'' ! 0 = candidate (Date 2024 3 1) 23 ''NBM4.2'' ''KXMR''"
  "search_order (Date 2024 3 1) ''KXMR'' ! 72 = candidate (Date 2024 2 29) 23 ''NBM4.2'' ''KXMR''"
  "search_order (Date 2024 3 1) ''KXMR'' ! 100 = candidate (Date 2024 2 29) 14 ''NBM4.1'' ''KXMR''"
  "search_order (Date 2024 3 1) ''KXMR'' ! 144 = candidate (Date 2024 2 28) 23 ''NBM4.2'' ''KXMR''"
proof -
  have k: "0 < DAYS_BACK" "1 < DAYS_BACK" "2 < DAYS_BACK" by (simp_all add: DAYS_BACK_def)
  have v: "0 < length NBM_VERSIONS_TO_TRY" "1 < length NBM_VERSIONS_TO_TRY"
    by (simp_all add: NBM_VERSIONS_TO_TRY_def)
  have n: "NBM_VERSIONS_TO_TRY ! 0 = ''NBM4.2''" "NBM_VERSIONS_TO_TRY ! 1 = ''NBM4.1''"
    by (simp_all add: NBM_VERSIONS_TO_TRY_def)
  have h: "(0::int) \<le> 23" "(23::int) \<le> 23" "(0::int) \<le> 14" "(14::int) \<le> 23" by simp_all
  have i: "72 * 0 + 3 * nat (23 - 23) + 0 = (0::nat)" "72 * 1 + 3 * nat (23 - 23) + 0 = (72::nat)"
    "72 * 1 + 3 * nat (23 - 14) + 1 = (100::nat)" "72 * 2 + 3 * nat (23 - 23) + 0 = (144::nat)"
    by simp_all
  show "search_order (Date 2024 3 1) ''KXMR'' ! 0 = candidate (Date 2024 3 1) 23 ''NBM4.2'' ''KXMR''"
    using search_order_nth [OF k(1) h(1) h(2) v(1), of "Date 2024 3 1" "''KXMR''"]
    unfolding i n by simp
  show "search_order (Date 2024 3 1) ''KXMR'' ! 72 = candidate (Date 2024 2 29) 23 ''NBM4.2'' ''KXMR''"
    using search_order_nth [OF k(2) h(1) h(2) v(1), of "Date 2024 3 1" "''KXMR''"]
    unfolding i n sample_days .
  show "search_order (Date 2024 3 1) ''KXMR'' ! 100 = candidate (Date 2024 2 29) 14 ''NBM4.1'' ''KXMR''"
    using search_order_nth [OF k(2) h(3) h(4) v(2), of "Date 2024 3 1" "''KXMR''"]
    unfolding i n sample_days .
  show "search_order (Date 2024 3 1) ''KXMR'' ! 144 = candidate (Date 2024 2 28) 23 ''NBM4.2'' ''KXMR''"
    using search_order_nth [OF k(3) h(1) h(2) v(1), of "Date 2024 3 1" "''KXMR''"]
    unfolding i n sample_days .
qed

lemma url_nth_inj:
  assumes "i < 216" and "j < 216"
    and "url (search_order today station ! i) = url (search_order today station ! j)"
  shows "i = j"
proof -
  let ?us = "map url (search_order today station)"
  have len: "length ?us = 216" by (simp add: length_search_order)
  have "(?us ! i = ?us ! j) = (i = j)"
    using distinct_urls_search_order
    by (rule nth_eq_iff_index_eq) (simp_all add: length_search_order assms)
  moreover have "?us ! i = ?us ! j"
    using assms by (simp add: length_search_order)
  ultimately show ?thesis by simp
qed

theorem find_latest_csv_priority_order_witness:
  "fst (find_latest_csv
     (listed_env (Date 2024 3 1)
        [''https://apps.gsl.noaa.gov/nbmviewer/data/archive/2024/02/29/NBM4.1/14/KXMR.csv'',
         ''https://apps.gsl.noaa.gov/nbmviewer/data/archive/2024/02/28/NBM4.2/23/KXMR.csv''])
     ''KXMR'') =
     Inr (Some
      \<lparr>url = ''https://apps.gsl.noaa.gov/nbmviewer/data/archive/2024/02/29/NBM4.1/14/KXMR.csv'',
       year = 2024, month = 2, day = 29, hour = 14, version = ''NBM4.1''\<rparr>) \<and>
   length (snd (find_latest_csv
     (listed_env (Date 2024 3 1)
        [''https://apps.gsl.noaa.gov/nbmviewer/data/archive/2024/02/29/NBM4.1/14/KXMR.csv'',
         ''https://apps.gsl.noaa.gov/nbmviewer/data/archive/2024/02/28/NBM4.2/23/KXMR.csv''])
     ''KXMR'')) = 101 \<and>
   snd (find_latest_csv
     (listed_env (Date 2024 3 1)
        [''https://apps.gsl.noaa.gov/nbmviewer/data/archive/2024/02/29/NBM4.1/14/KXMR.csv'',
         ''https://apps.gsl.noaa.gov/nbmviewer/data/archive/2024/02/28/NBM4.2/23/KXMR.csv''])
     ''KXMR'') ! 0 =
      \<lparr>url = ''https://apps.gsl.noaa.gov/nbmviewer/data/archive/2024/03/01/NBM4.2/23/KXMR.csv'',
       year = 2024, month = 3, day = 1, hour = 23, version = ''NBM4.2''\<rparr> \<and>
   snd (find_latest_csv
     (listed_env (Date 2024 3 1)
        [''https://apps.gsl.noaa.gov/nbmviewer/data/archive/2024/02/29/NBM4.1/14/KXMR.csv'',
         ''https://apps.gsl.noaa.gov/nbmviewer/data/archive/2024/02/28/NBM4.2/23/KXMR.csv''])
     ''KXMR'') ! 72 =
      \<lparr>url = ''https://apps.gsl.noaa.gov/nbmviewer/data/archive/2024/02/29/NBM4.2/23/KXMR.csv'',
       year = 2024, month = 2, day = 29, hour = 23, version = ''NBM4.2''\<rparr> \<and>
   snd (find_latest_csv
     (listed_env (Date 2024 3 1)
        [''https://apps.gsl.noaa.gov/nbmviewer/data/archive/2024/02/29/NBM4.1/14/KXMR.csv'',
         ''https://apps.gsl.noaa.gov/nbmviewer/data/archive/2024/02/28/NBM4.2/23/KXMR.csv''])
     ''KXMR'') ! 100 =
      \<lparr>url = ''https://apps.gsl.noaa.gov/nbmviewer/data/archive/2024/02/29/NBM4.1/14/KXMR.csv'',
       year = 2024, month = 2, day = 29, hour = 14, version = ''NBM4.1''\<rparr> \<and>
   date_before (Date 2024 2 29) (Date 2024 3 1)"
proof -
  let ?a = "''https://apps.gsl.noaa.gov/nbmviewer/data/archive/2024/02/29/NBM4.1/14/KXMR.csv''"
  let ?b = "''https://apps.gsl.noaa.gov/nbmviewer/data/archive/2024/02/28/NBM4.2/23/KXMR.csv''"
  let ?E = "listed_env (Date 2024 3 1) [?a, ?b]"
  let ?xs = "search_order (Date 2024 3 1) ''KXMR''"
  have today: "utcnow_date ?E = Date 2024 3 1" by (simp add: listed_env_def)
  have y: "1 < year_of (utcnow_date ?E)" by (simp add: today)
  have i: "100 < length (search_order (utcnow_date ?E) ''KXMR'')"
    by (simp add: length_search_order)
  have ua: "url (?xs ! 100) = ?a" and ub: "url (?xs ! 144) = ?b"
    by (simp_all add: sample_positions sample_candidates)
  have hit: "url_exists ?E (url (search_order (utcnow_date ?E) ''KXMR'' ! 100))"
    unfolding today url_exists_listed_env ua by simp
  have first: "\<forall>j<100. \<not> url_exists ?E (url (search_order (utcnow_date ?E) ''KXMR'' ! j))"
  proof (intro allI impI)
    fix j :: nat assume j: "j < 100"
    have "url (?xs ! j) \<noteq> url (?xs ! 100)"
      using url_nth_inj [of j 100 "Date 2024 3 1" "''KXMR''"] j by auto
    moreover have "url (?xs ! j) \<noteq> url (?xs ! 144)"
      using url_nth_inj [of j 144 "Date 2024 3 1" "''KXMR''"] j by auto
    ultimately show "\<not> url_exists ?E (url (search_order (utcnow_date ?E) ''KXMR'' ! j))"
      unfolding today url_exists_listed_env ua ub by simp
  qed
  note inst = find_latest_csv_priority_order [OF y i hit first, unfolded today]
  from inst have run: "find_latest_csv ?E ''KXMR'' = (Inr (Some (?xs ! 100)), take (Suc 100) ?xs)"
    by (rule conjunct1)
  from inst have older: "date_before (day_back (Date 2024 3 1) (Suc 0)) (day_back (Date 2024 3 1) 0)"
    by blast
  have yesterday: "day_back (Date 2024 3 1) (Suc 0) = Date 2024 2 29"
    using sample_days(1) by simp
  have "fst (find_latest_csv ?E ''KXMR'') = Inr (Some (?xs ! 100))"
    and "length (snd (find_latest_csv ?E ''KXMR'')) = 101"
    and "snd (find_latest_csv ?E ''KXMR'') ! 0 = ?xs ! 0"
    and "snd (find_latest_csv ?E ''KXMR'') ! 72 = ?xs ! 72"
    and "snd (find_latest_csv ?E ''KXMR'') ! 100 = ?xs ! 100"
    by (simp_all add: run length_search_order)
  moreover have "date_before (Date 2024 2 29) (Date 2024 3 1)"
    using older unfolding yesterday by simp
  ultimately show ?thesis
    unfolding sample_positions sample_candidates by blast
qed

subsection \<open>An exhausted search\<close>

lemma find_none_iff: "(find P xs = None) = (\<forall>x \<in> set xs. \<not> P x)"
  by (induction xs) auto

lemma str_nat_DAYS_BACK: "str_nat DAYS_BACK = ''3''"
  by (simp add: DAYS_BACK_def str_nat.simps digit_char_def)

text \<open>Claim C3. When the existence check fails for every URL of the search space, the search
  returns \<open>None\<close> after probing every candidate once, in order: 3 days times 24 hours times
  3 versions, 216 existence checks. The click then ends with the explicit error message of
  \<^verbatim>\<open>st.error\<close>, not with an exception.\<close>

theorem find_latest_csv_not_found:
  assumes "1 < year_of (utcnow_date E)"
    and "\<forall>c \<in> set (search_order (utcnow_date E) station). \<not> url_exists E (url c)"
  shows "find_latest_csv E station = (Inr None, search_order (utcnow_date E) station) \<and>
    length (snd (find_latest_csv E station)) = DAYS_BACK * 24 * length NBM_VERSIONS_TO_TRY \<and>
    length (snd (find_latest_csv E station)) = 216 \<and>
    on_click E station =
      ErrorMessage (''No CSV found for '' @ station @
        '' in the last 3 day(s). Try increasing DAYS_BACK.'')"
proof -
  have none: "find (exists_at E) (search_order (utcnow_date E) station) = None"
    using assms(2) by (simp add: find_none_iff exists_at_def)
  have run: "find_latest_csv E station = (Inr None, search_order (utcnow_date E) station)"
    by (simp add: find_latest_csv_eq [OF assms(1)] none probes_until_none)
  have len: "length (snd (find_latest_csv E station)) = 216"
    by (simp add: run length_search_order)
  have "DAYS_BACK * 24 * length NBM_VERSIONS_TO_TRY = 216"
    by (simp add: DAYS_BACK_def NBM_VERSIONS_TO_TRY_def)
  moreover have "on_click E station =
      ErrorMessage (''No CSV found for '' @ station @
        '' in the last 3 day(s). Try increasing DAYS_BACK.'')"
    by (simp add: on_click_def run not_found_message_def str_nat_DAYS_BACK)
  ultimately show ?thesis using run len by simp
qed

lemma url_exists_fixed_env:
  "url_exists (fixed_env today h g dl) u = (h = 200 \<or> ((h = 403 \<or> h = 405) \<and> g = 200))"
  by (simp add: url_exists_iff fixed_env_def)

theorem find_latest_csv_not_found_witness:
  "fst (find_latest_csv (fixed_env (Date 2024 3 1) 404 404 404) ''KXMR'') = Inr None \<and>
   length (snd (find_latest_csv (fixed_env (Date 2024 3 1) 404 404 404) ''KXMR'')) = 216 \<and>
   on_click (fixed_env (Date 2024 3 1) 404 404 404) ''KXMR'' =
     ErrorMessage ''No CSV found for KXMR in the last 3 day(s). Try increasing DAYS_BACK.''"
proof -
  let ?E = "fixed_env (Date 2024 3 1) 404 404 404"
  have y: "1 < year_of (utcnow_date ?E)" by (simp add: fixed_env_def)
  have absent: "\<forall>c \<in> set (search_order (utcnow_date ?E) ''KXMR''). \<not> url_exists ?E (url c)"
    by (simp add: url_exists_fixed_env)
  from find_latest_csv_not_found [OF y absent] show ?thesis by (simp add: length_search_order)
qed

subsection \<open>A found result\<close>

lemma find_Some_mem: "find P xs = Some x \<Longrightarrow> x \<in> set xs \<and> P x"
  by (induction xs) (auto split: if_splits)

lemma probes_until_last:
  "find P xs = Some x \<Longrightarrow> probes_until P xs \<noteq> [] \<and> last (probes_until P xs) = x"
  by (induction xs) (auto split: if_splits)

lemma days_loop_found:
  "days_loop E today station offsets probes = (Inr (Some r), probes') \<Longrightarrow>
     (\<exists>k \<in> set offsets. \<exists>hh \<in> set HOURS_DESC. \<exists>ver \<in> set NBM_VERSIONS_TO_TRY.
        r = candidate (day_back today k) hh ver station) \<and> url_exists E (url r) \<and> r = last probes'"
proof (induction offsets arbitrary: probes)
  case Nil
  then show ?case by simp
next
  case (Cons k offsets)
  let ?hc = "concat (map (\<lambda>hh. map (\<lambda>ver. candidate (day_back today k) hh ver station)
      NBM_VERSIONS_TO_TRY) HOURS_DESC)"
  from Cons.prems obtain dt where dt: "date_sub today k = Inr dt"
    by (cases "date_sub today k") auto
  then have sub: "date_sub today k = Inr (day_back today k)"
    using date_sub_Inr by blast
  show ?case
  proof (cases "find (exists_at E) ?hc")
    case None
    then have "days_loop E today station offsets (probes @ ?hc) = (Inr (Some r), probes')"
      using Cons.prems sub by (simp add: hours_loop_eq probes_until_none)
    from Cons.IH [OF this] show ?thesis
      unfolding list.set by blast
  next
    case (Some c)
    then have r: "r = c" and p: "probes' = probes @ probes_until (exists_at E) ?hc"
      using Cons.prems sub by (simp_all add: hours_loop_eq)
    have ne: "probes_until (exists_at E) ?hc \<noteq> []"
      using probes_until_last [OF Some] by blast
    have "c \<in> set ?hc \<and> exists_at E c" using Some by (rule find_Some_mem)
    moreover have "last probes' = c"
      using ne probes_until_last [OF Some] by (simp add: p)
    ultimately show ?thesis using r by (auto simp: exists_at_def)
  qed
qed

text \<open>Claim C10. Whenever the search returns a result, its URL is \<open>build_url\<close> of its own
  year, month, day, hour and version and of the searched station, that URL passed the
  existence check, and it was the last probe. The page rendered after the click displays
  this metadata and URL, and its data are the bytes downloaded from that same URL.\<close>

theorem found_url_consistent:
  assumes "find_latest_csv E station = (Inr (Some r), probes)"
  shows "url r = build_url (year r) (month r) (day r) (hour r) (version r) station \<and>
    url_exists E (url r) \<and> r = last probes \<and>
    (\<forall>p. on_click E station = Rendered p \<longrightarrow>
       source_url p = build_url (year r) (month r) (day r) (hour r) (version r) station \<and>
       success p = success_message r \<and>
       download_csv_bytes E (build_url (year r) (month r) (day r) (hour r) (version r) station)
         = Inr (data p))"
proof -
  from days_loop_found [OF assms [unfolded find_latest_csv_def]]
  obtain dt hh ver where r: "r = candidate dt hh ver station"
    and ex: "url_exists E (url r)" and l: "r = last probes"
    by blast
  have u: "url r = build_url (year r) (month r) (day r) (hour r) (version r) station"
    by (simp add: r candidate_def)
  have "source_url p = url r \<and> success p = success_message r \<and>
      download_csv_bytes E (url r) = Inr (data p)"
    if "on_click E station = Rendered p" for p
    using that by (auto simp: on_click_def assms split: sum.splits)
  then show ?thesis using u ex l by metis
qed

lemma sample_run:
  "find_latest_csv
     (listed_env (Date 2024 3 1)
        [''https://apps.gsl.noaa.gov/nbmviewer/data/archive/2024/03/01/NBM4.1/22/KXMR.csv'',
         ''https://apps.gsl.noaa.gov/nbmviewer/data/archive/2024/02/29/NBM4.1/14/KXMR.csv''])
     ''KXMR'' =
   (Inr (Some
      \<lparr>url = ''https://apps.gsl.noaa.gov/nbmviewer/data/archive/2024/03/01/NBM4.1/22/KXMR.csv'',
       year = 2024, month = 3, day = 1, hour = 22, version = ''NBM4.1''\<rparr>),
    take 5 (search_order (Date 2024 3 1) ''KXMR''))"
proof -
  let ?E = "listed_env (Date 2024 3 1)
        [''https://apps.gsl.noaa.gov/nbmviewer/data/archive/2024/03/01/NBM4.1/22/KXMR.csv'',
         ''https://apps.gsl.noaa.gov/nbmviewer/data/archive/2024/02/29/NBM4.1/14/KXMR.csv'']"
  let ?xs = "search_order (Date 2024 3 1) ''KXMR''"
  have today: "utcnow_date ?E = Date 2024 3 1" by (simp add: listed_env_def)
  have y: "1 < year_of (utcnow_date ?E)" by (simp add: today)
  have split: "?xs = take 5 ?xs @ drop 5 ?xs" by simp
  have P: "exists_at ?E = (\<lambda>c. url c \<in> set
        [''https://apps.gsl.noaa.gov/nbmviewer/data/archive/2024/03/01/NBM4.1/22/KXMR.csv'',
         ''https://apps.gsl.noaa.gov/nbmviewer/data/archive/2024/02/29/NBM4.1/14/KXMR.csv''])"
    by (rule ext) (simp add: exists_at_def url_exists_listed_env)
  have f: "find (exists_at ?E) (take 5 ?xs) = Some
      \<lparr>url = ''https://apps.gsl.noaa.gov/nbmviewer/data/archive/2024/03/01/NBM4.1/22/KXMR.csv'',
       year = 2024, month = 3, day = 1, hour = 22, version = ''NBM4.1''\<rparr>"
    unfolding P sample_order by simp
  have p: "probes_until (exists_at ?E) (take 5 ?xs) = take 5 ?xs"
    unfolding P sample_order by simp
  have "find (exists_at ?E) ?xs = Some
      \<lparr>url = ''https://apps.gsl.noaa.gov/nbmviewer/data/archive/2024/03/01/NBM4.1/22/KXMR.csv'',
       year = 2024, month = 3, day = 1, hour = 22, version = ''NBM4.1''\<rparr>"
    by (subst split) (simp only: find_append_case f option.case)
  moreover have "probes_until (exists_at ?E) ?xs = take 5 ?xs"
    by (subst split) (simp only: probes_until_append f option.case p)
  ultimately show ?thesis
    using find_latest_csv_eq [OF y, of "''KXMR''"] unfolding today by simp
qed

theorem found_url_consistent_witness:
  "url \<lparr>url = ''https://apps.gsl.noaa.gov/nbmviewer/data/archive/2024/03/01/NBM4.1/22/KXMR.csv'',
       year = 2024, month = 3, day = 1, hour = 22, version = ''NBM4.1''\<rparr> =
   build_url 2024 3 1 22 ''NBM4.1'' ''KXMR''"
  using found_url_consistent [OF sample_run]
  by simp

section \<open>Fixed-width rendering and valid dates\<close>

lemma str_nat_lt10: "m < 10 \<Longrightarrow> str_nat m = [digit_char m]"
  by (subst str_nat.simps) simp

lemma str_nat_ge10: "10 \<le> m \<Longrightarrow> str_nat m = str_nat (m div 10) @ [digit_char m]"
  by (subst str_nat.simps) simp

lemma digit_char_0: "digit_char 0 = CHR ''0''"
  by (simp add: digit_char_def)

lemma str_nat_2: "m < 100 \<Longrightarrow> zfill 2 (str_nat m) = [digit_char (m div 10), digit_char m]"
proof (cases "m < 10")
  case True
  then show ?thesis by (simp add: str_nat_lt10 zfill_def digit_char_0)
next
  case False
  assume "m < 100"
  then have "m div 10 < 10" by simp
  then show ?thesis using False by (simp add: str_nat_ge10 str_nat_lt10 zfill_def)
qed

lemma str_nat_4:
  assumes "m < 10000"
  shows "zfill 4 (str_nat m) =
    [digit_char (m div 1000), digit_char (m div 100), digit_char (m div 10), digit_char m]"
proof -
  consider "m < 10" | "10 \<le> m" "m < 100" | "100 \<le> m" "m < 1000" | "1000 \<le> m"
    by linarith
  then show ?thesis
  proof cases
    case 1
    then show ?thesis by (simp add: str_nat_lt10 zfill_def digit_char_0 numeral_3_eq_3)
  next
    case 2
    then have "m div 10 < 10" by simp
    then show ?thesis using 2
      by (simp add: str_nat_ge10 str_nat_lt10 zfill_def digit_char_0 numeral_2_eq_2)
  next
    case 3
    have c: "m div 10 div 10 = m div 100" by (simp add: div_mult2_eq [symmetric])
    have s1: "str_nat m = str_nat (m div 10) @ [digit_char m]"
      using 3 by (intro str_nat_ge10) simp
    have s2: "str_nat (m div 10) = str_nat (m div 100) @ [digit_char (m div 10)]"
      using 3 str_nat_ge10 [of "m div 10"] by (simp add: c)
    have s3: "str_nat (m div 100) = [digit_char (m div 100)]"
      using 3 by (intro str_nat_lt10) simp
    have z: "m div 1000 = 0" using 3 by simp
    show ?thesis by (simp add: s1 s2 s3 z zfill_def digit_char_0)
  next
    case 4
    have c: "m div 10 div 10 = m div 100" "m div 100 div 10 = m div 1000"
      by (simp_all add: div_mult2_eq [symmetric])
    have s1: "str_nat m = str_nat (m div 10) @ [digit_char m]"
      using 4 by (intro str_nat_ge10) simp
    have s2: "str_nat (m div 10) = str_nat (m div 100) @ [digit_char (m div 10)]"
      using 4 str_nat_ge10 [of "m div 10"] by (simp add: c)
    have s3: "str_nat (m div 100) = str_nat (m div 1000) @ [digit_char (m div 100)]"
      using 4 str_nat_ge10 [of "m div 100"] by (simp add: c)
    have s4: "str_nat (m div 1000) = [digit_char (m div 1000)]"
      using assms by (intro str_nat_lt10) simp
    show ?thesis by (simp add: s1 s2 s3 s4 zfill_def)
  qed
qed

lemma fmt_0d_2: "0 \<le> n \<Longrightarrow> n \<le> 99 \<Longrightarrow> fmt_0d 2 n = two_digits n"
  by (simp add: fmt_0d_def two_digits_def str_nat_2)

lemma fmt_0d_4: "0 \<le> n \<Longrightarrow> n \<le> 9999 \<Longrightarrow> fmt_0d 4 n = four_digits n"
  by (simp add: fmt_0d_def four_digits_def str_nat_4)

lemma days_in_month_bounds: "28 \<le> days_in_month y m \<and> days_in_month y m \<le> 31"
  by (simp add: days_in_month_def)

lemma valid_prev_day:
  assumes "valid_date dt" and "dt \<noteq> MINDATE"
  shows "valid_date (prev_day dt)"
proof (cases dt)
  case (Date y m d)
  have b: "28 \<le> days_in_month y (m - 1)" "days_in_month y (m - 1) \<le> 31"
    using days_in_month_bounds by simp_all
  show ?thesis
    using assms b unfolding Date valid_date_def prev_day_def MINDATE_def
    by (auto simp: days_in_month_def)
qed

lemma day_back_not_min:
  assumes "1 < year_of today" and "j < 2"
  shows "day_back today j \<noteq> MINDATE"
proof -
  have "j = 0 \<or> j = 1" using assms(2) by auto
  then show ?thesis
    using assms(1) by (cases today) (auto simp: MINDATE_def prev_day_def split: if_splits)
qed

lemma valid_day_back:
  assumes "valid_date today" and "1 < year_of today" and "k < DAYS_BACK"
  shows "valid_date (day_back today k)"
proof -
  have k: "k = 0 \<or> k = 1 \<or> k = 2" using assms(3) by (auto simp: DAYS_BACK_def)
  have v1: "valid_date (day_back today 1)"
    using valid_prev_day [OF assms(1)] day_back_not_min [OF assms(2), of 0] by simp
  have "valid_date (prev_day (day_back today 1))"
    using v1 day_back_not_min [OF assms(2), of 1] by (intro valid_prev_day) simp_all
  then have v2: "valid_date (day_back today 2)"
    by (simp add: numeral_2_eq_2)
  show ?thesis using k assms(1) v1 v2 by auto
qed

subsection \<open>The probes of one search\<close>

lemma date_before_asym: "date_before a b \<Longrightarrow> \<not> date_before b a"
  using date_before_trans date_before_irrefl by blast

lemma day_back_not_before:
  "k \<le> k' \<Longrightarrow> \<not> date_before (day_back today k) (day_back today k')"
proof (cases "k = k'")
  case True
  then show ?thesis by (simp add: date_before_irrefl)
next
  case False
  assume "k \<le> k'"
  then have "k < k'" using False by simp
  then show ?thesis using day_back_less date_before_asym by blast
qed

text \<open>Claim C5. The probes of one search have pairwise distinct (date, hour, version) keys,
  and pairwise distinct URLs: no key is probed twice. Every probe lies inside the bounded
  space: its date is today minus 0, 1 or 2 days (not older than the lookback window, not
  later than today), its hour is between 0 and 23, its version is one of the listed ones,
  and its URL is the URL built from this key.\<close>

theorem probes_once_within_space:
  "distinct (map key_of (snd (find_latest_csv E station))) \<and>
   distinct (map url (snd (find_latest_csv E station))) \<and>
   (\<forall>p \<in> set (snd (find_latest_csv E station)).
      (\<exists>k<DAYS_BACK. Date (year p) (month p) (day p) = day_back (utcnow_date E) k) \<and>
      \<not> date_before (Date (year p) (month p) (day p)) (day_back (utcnow_date E) (DAYS_BACK - 1)) \<and>
      \<not> date_before (utcnow_date E) (Date (year p) (month p) (day p)) \<and>
      0 \<le> hour p \<and> hour p \<le> 23 \<and> version p \<in> set NBM_VERSIONS_TO_TRY \<and>
      url p = build_url (year p) (month p) (day p) (hour p) (version p) station)"
proof -
  let ?xs = "search_order (utcnow_date E) station"
  obtain n where n: "snd (find_latest_csv E station) = take n ?xs"
    using find_latest_csv_probes_prefix by blast
  have d1: "distinct (map key_of (take n ?xs))"
    unfolding take_map [symmetric] using distinct_keys_search_order by (rule distinct_take)
  have d2: "distinct (map url (take n ?xs))"
    unfolding take_map [symmetric] using distinct_urls_search_order by (rule distinct_take)
  have inside: "(\<exists>k<DAYS_BACK. Date (year p) (month p) (day p) = day_back (utcnow_date E) k) \<and>
      \<not> date_before (Date (year p) (month p) (day p)) (day_back (utcnow_date E) (DAYS_BACK - 1)) \<and>
      \<not> date_before (utcnow_date E) (Date (year p) (month p) (day p)) \<and>
      0 \<le> hour p \<and> hour p \<le> 23 \<and> version p \<in> set NBM_VERSIONS_TO_TRY \<and>
      url p = build_url (year p) (month p) (day p) (hour p) (version p) station"
    if "p \<in> set (take n ?xs)" for p
  proof -
    from that have "p \<in> set ?xs" by (rule in_set_takeD)
    then obtain k hh ver where k: "k < DAYS_BACK" and hh: "0 \<le> hh" "hh \<le> 23"
      and ver: "ver \<in> set NBM_VERSIONS_TO_TRY"
      and p: "p = candidate (day_back (utcnow_date E) k) hh ver station"
      unfolding set_search_order by blast
    have dt: "Date (year p) (month p) (day p) = day_back (utcnow_date E) k"
      by (simp add: p candidate_def)
    have "\<not> date_before (day_back (utcnow_date E) k) (day_back (utcnow_date E) (DAYS_BACK - 1))"
      using k by (intro day_back_not_before) simp
    moreover have "\<not> date_before (day_back (utcnow_date E) 0) (day_back (utcnow_date E) k)"
      by (intro day_back_not_before) simp
    ultimately show ?thesis
      using k hh ver unfolding dt by (auto simp: p candidate_def)
  qed
  show ?thesis
    unfolding n using d1 d2 inside by blast
qed

theorem probes_once_within_space_witness:
  "distinct (map key_of (take 5 (search_order (Date 2024 3 1) ''KXMR''))) \<and>
   (\<exists>k<DAYS_BACK. Date 2024 3 1 = day_back (Date 2024 3 1) k) \<and>
   \<not> date_before (Date 2024 3 1) (day_back (Date 2024 3 1) (DAYS_BACK - 1)) \<and>
   ''NBM4.1'' \<in> set NBM_VERSIONS_TO_TRY"
proof -
  let ?E = "listed_env (Date 2024 3 1)
        [''https://apps.gsl.noaa.gov/nbmviewer/data/archive/2024/03/01/NBM4.1/22/KXMR.csv'',
         ''https://apps.gsl.noaa.gov/nbmviewer/data/archive/2024/02/29/NBM4.1/14/KXMR.csv'']"
  let ?p = "\<lparr>url = ''https://apps.gsl.noaa.gov/nbmviewer/data/archive/2024/03/01/NBM4.1/22/KXMR.csv'',
       year = 2024, month = 3, day = 1, hour = 22, version = ''NBM4.1''\<rparr>"
  have today: "utcnow_date ?E = Date 2024 3 1" by (simp add: listed_env_def)
  have probes: "snd (find_latest_csv ?E ''KXMR'') = take 5 (search_order (Date 2024 3 1) ''KXMR'')"
    by (simp add: sample_run)
  have mem: "?p \<in> set (snd (find_latest_csv ?E ''KXMR''))"
    unfolding probes sample_order by simp
  from probes_once_within_space [of ?E "''KXMR''"] mem show ?thesis
    unfolding probes today by fastforce
qed

subsection \<open>The download file name\<close>

lemma find_unique:
  "x \<in> set xs \<Longrightarrow> (\<forall>c \<in> set xs. P c = (c = x)) \<Longrightarrow> find P xs = Some x"
  by (induction xs) auto

lemma url_inj_search_order:
  assumes "c \<in> set (search_order today station)" and "c' \<in> set (search_order today station)"
    and "url c = url c'"
  shows "c = c'"
  using distinct_urls_search_order [of today station] assms
  by (simp add: distinct_map inj_on_def)

lemma fmt_0d_2_12: "fmt_0d 2 12 = ''12''"
  by (simp add: fmt_0d_def zfill_def str_nat.simps digit_char_def)

lemma filename_digits:
  assumes "valid_date dt" and "0 \<le> hh" and "hh \<le> 23"
  shows "filename station (candidate dt hh ver station') =
    station @ ''_'' @ four_digits (year_of dt) @ two_digits (month_of dt) @
    two_digits (day_of dt) @ two_digits hh @ ''_'' @ ver @ ''.csv''"
proof -
  have b: "days_in_month (year_of dt) (month_of dt) \<le> 31"
    using days_in_month_bounds by simp
  have y: "fmt_0d 4 (year_of dt) = four_digits (year_of dt)"
    using assms(1) by (intro fmt_0d_4) (simp_all add: valid_date_def)
  have m: "fmt_0d 2 (month_of dt) = two_digits (month_of dt)"
    using assms(1) by (intro fmt_0d_2) (simp_all add: valid_date_def)
  have d: "fmt_0d 2 (day_of dt) = two_digits (day_of dt)"
    using assms(1) b by (intro fmt_0d_2) (simp_all add: valid_date_def)
  have h: "fmt_0d 2 hh = two_digits hh"
    using assms(2,3) by (intro fmt_0d_2) simp_all
  show ?thesis
    by (simp add: filename_def candidate_def y m d h)
qed

lemma on_click_rendered:
  assumes "on_click E station = Rendered p"
  shows "\<exists>f. fst (find_latest_csv E station) = Inr (Some f) \<and> file_name p = filename station f"
  using assms by (auto simp: on_click_def split: sum.splits option.splits)

text \<open>Claim C7. On a valid date after year 1, the file name offered with a rendered page is
  the station, an underscore, the found result's year as four digits, its month, day and
  hour as two digits each, an underscore, its version, and \<open>.csv\<close>. In particular, when
  the only URL of the search space of station KXMR that passes the existence check is the
  one of yesterday (day offset 1), hour 12, version NBM4.1, the search returns exactly that
  date, hour and version with that URL, and the file name is \<open>KXMR_\<close>, yesterday as
  yyyyMMdd, \<open>12_NBM4.1.csv\<close>.\<close>

theorem download_filename:
  assumes valid: "valid_date (utcnow_date E)" and year: "1 < year_of (utcnow_date E)"
    and yday: "prev_day (utcnow_date E) = Date y m d"
  shows "(\<forall>station p. on_click E station = Rendered p \<longrightarrow>
      (\<exists>f. fst (find_latest_csv E station) = Inr (Some f) \<and>
         file_name p = station @ ''_'' @ four_digits (year f) @ two_digits (month f) @
           two_digits (day f) @ two_digits (hour f) @ ''_'' @ version f @ ''.csv'')) \<and>
    ((\<forall>c \<in> set (search_order (utcnow_date E) ''KXMR'').
        url_exists E (url c) = (url c = build_url y m d 12 ''NBM4.1'' ''KXMR'')) \<longrightarrow>
     fst (find_latest_csv E ''KXMR'') =
       Inr (Some \<lparr>url = build_url y m d 12 ''NBM4.1'' ''KXMR'',
                  year = y, month = m, day = d, hour = 12, version = ''NBM4.1''\<rparr>) \<and>
     (\<forall>p. on_click E ''KXMR'' = Rendered p \<longrightarrow>
        file_name p = ''KXMR_'' @ four_digits y @ two_digits m @ two_digits d @
          ''12_NBM4.1.csv''))"
proof (intro conjI allI impI)
  fix station p
  assume r: "on_click E station = Rendered p"
  from on_click_rendered [OF r] obtain f
    where f: "fst (find_latest_csv E station) = Inr (Some f)"
      and n: "file_name p = filename station f" by blast
  have "find (exists_at E) (search_order (utcnow_date E) station) = Some f"
    using f by (simp add: find_latest_csv_eq [OF year])
  then have "f \<in> set (search_order (utcnow_date E) station)"
    using find_Some_mem by fastforce
  then obtain k hh ver where k: "k < DAYS_BACK" and hh: "0 \<le> hh" "hh \<le> 23"
    and c: "f = candidate (day_back (utcnow_date E) k) hh ver station"
    unfolding set_search_order by blast
  have v: "valid_date (day_back (utcnow_date E) k)"
    using valid year k by (rule valid_day_back)
  have "filename station f = station @ ''_'' @ four_digits (year f) @ two_digits (month f) @
      two_digits (day f) @ two_digits (hour f) @ ''_'' @ version f @ ''.csv''"
    unfolding c filename_digits [OF v hh] by (simp add: candidate_def)
  then show "\<exists>f. fst (find_latest_csv E station) = Inr (Some f) \<and>
      file_name p = station @ ''_'' @ four_digits (year f) @ two_digits (month f) @
        two_digits (day f) @ two_digits (hour f) @ ''_'' @ version f @ ''.csv''"
    using f n by auto
next
  assume only: "\<forall>c \<in> set (search_order (utcnow_date E) ''KXMR'').
      url_exists E (url c) = (url c = build_url y m d 12 ''NBM4.1'' ''KXMR'')"
  let ?xs = "search_order (utcnow_date E) ''KXMR''"
  let ?t = "candidate (Date y m d) 12 ''NBM4.1'' ''KXMR''"
  have t: "?t = \<lparr>url = build_url y m d 12 ''NBM4.1'' ''KXMR'',
      year = y, month = m, day = d, hour = 12, version = ''NBM4.1''\<rparr>"
    by (simp add: candidate_def)
  have "day_back (utcnow_date E) 1 = Date y m d" using yday by simp
  moreover have "(1::nat) < DAYS_BACK" by (simp add: DAYS_BACK_def)
  moreover have "''NBM4.1'' \<in> set NBM_VERSIONS_TO_TRY" by (simp add: NBM_VERSIONS_TO_TRY_def)
  ultimately have mem: "?t \<in> set ?xs"
    unfolding set_search_order by force
  have "\<forall>c \<in> set ?xs. exists_at E c = (c = ?t)"
  proof
    fix c assume c: "c \<in> set ?xs"
    have "exists_at E c = (url c = url ?t)"
      using only c by (simp add: exists_at_def candidate_def)
    also have "\<dots> = (c = ?t)"
      using url_inj_search_order [OF c mem] by blast
    finally show "exists_at E c = (c = ?t)" .
  qed
  with mem have "find (exists_at E) ?xs = Some ?t" by (rule find_unique)
  then show run: "fst (find_latest_csv E ''KXMR'') =
      Inr (Some \<lparr>url = build_url y m d 12 ''NBM4.1'' ''KXMR'',
                 year = y, month = m, day = d, hour = 12, version = ''NBM4.1''\<rparr>)"
    by (simp add: find_latest_csv_eq [OF year] t)
  fix p assume r: "on_click E ''KXMR'' = Rendered p"
  from on_click_rendered [OF r] run have "file_name p = filename ''KXMR'' ?t"
    by (simp add: t)
  moreover have "valid_date (Date y m d)"
    using valid_day_back [OF valid year, of 1] yday by (simp add: DAYS_BACK_def)
  ultimately show "file_name p = ''KXMR_'' @ four_digits y @ two_digits m @ two_digits d @
      ''12_NBM4.1.csv''"
    using filename_digits [of "Date y m d" 12 "''KXMR''" "''NBM4.1''" "''KXMR''"]
    by (simp add: two_digits_def digit_char_def)
qed

theorem download_filename_witness:
  "fst (find_latest_csv
      (listed_env (Date 2024 3 1)
         [''https://apps.gsl.noaa.gov/nbmviewer/data/archive/2024/02/29/NBM4.1/12/KXMR.csv''])
      ''KXMR'') =
     Inr (Some
       \<lparr>url = ''https://apps.gsl.noaa.gov/nbmviewer/data/archive/2024/02/29/NBM4.1/12/KXMR.csv'',
        year = 2024, month = 2, day = 29, hour = 12, version = ''NBM4.1''\<rparr>) \<and>
   on_click
      (listed_env (Date 2024 3 1)
         [''https://apps.gsl.noaa.gov/nbmviewer/data/archive/2024/02/29/NBM4.1/12/KXMR.csv''])
      ''KXMR'' =
     Rendered
       \<lparr>success = ''Found latest: 2024-02-29 12Z (NBM4.1)'',
        source_url = ''https://apps.gsl.noaa.gov/nbmviewer/data/archive/2024/02/29/NBM4.1/12/KXMR.csv'',
        shape = (0, 2),
        file_name = ''KXMR_2024022912_NBM4.1.csv'',
        data = ''a,b''\<rparr>"
proof -
  let ?u = "''https://apps.gsl.noaa.gov/nbmviewer/data/archive/2024/02/29/NBM4.1/12/KXMR.csv''"
  let ?E = "listed_env (Date 2024 3 1) [?u]"
  let ?f = "\<lparr>url = ?u, year = 2024, month = 2, day = 29, hour = 12, version = ''NBM4.1''\<rparr>"
  have today: "utcnow_date ?E = Date 2024 3 1" by (simp add: listed_env_def)
  have valid: "valid_date (utcnow_date ?E)"
    by (simp add: today valid_date_def days_in_month_def)
  have year: "1 < year_of (utcnow_date ?E)" by (simp add: today)
  have yday: "prev_day (utcnow_date ?E) = Date 2024 2 29"
    by (simp add: today prev_day_def days_in_month_def is_leap_def)
  have u: "build_url 2024 2 29 12 ''NBM4.1'' ''KXMR'' = ?u"
    by (simp add: build_url_def BASE_def fmt_0d_def zfill_def str_nat.simps digit_char_def)
  have only: "\<forall>c \<in> set (search_order (utcnow_date ?E) ''KXMR'').
      url_exists ?E (url c) = (url c = build_url 2024 2 29 12 ''NBM4.1'' ''KXMR'')"
    unfolding u url_exists_listed_env by simp
  from download_filename [OF valid year yday] only
  have run: "fst (find_latest_csv ?E ''KXMR'') = Inr (Some ?f)"
    and name: "\<forall>p. on_click ?E ''KXMR'' = Rendered p \<longrightarrow>
      file_name p = ''KXMR_'' @ four_digits 2024 @ two_digits 2 @ two_digits 29 @ ''12_NBM4.1.csv''"
    unfolding u by blast+
  have digits: "''KXMR_'' @ four_digits 2024 @ two_digits 2 @ two_digits 29 @ ''12_NBM4.1.csv'' =
      ''KXMR_2024022912_NBM4.1.csv''"
    by (simp add: four_digits_def two_digits_def digit_char_def)
  have msg: "success_message ?f = ''Found latest: 2024-02-29 12Z (NBM4.1)''"
    by (simp add: success_message_def fmt_0d_def zfill_def str_nat.simps digit_char_def)
  have get: "requests_get ?E = (\<lambda>u. Inr \<lparr>status_code = 200, content = ''a,b''\<rparr>)"
    by (simp add: listed_env_def)
  have rc: "read_csv ?E = (\<lambda>b. Inr (0, 2))"
    by (simp add: listed_env_def)
  have click: "on_click ?E ''KXMR'' =
      Rendered \<lparr>success = success_message ?f, source_url = ?u, shape = (0, 2),
        file_name = filename ''KXMR'' ?f, data = ''a,b''\<rparr>"
    by (simp add: on_click_def run download_csv_bytes_def raise_for_status_def get rc)
  have "file_name \<lparr>success = success_message ?f, source_url = ?u, shape = (0, 2),
        file_name = filename ''KXMR'' ?f, data = ''a,b''\<rparr> = ''KXMR_2024022912_NBM4.1.csv''"
    using name click unfolding digits by blast
  then have "filename ''KXMR'' ?f = ''KXMR_2024022912_NBM4.1.csv''" by simp
  then show ?thesis using run click msg by simp
qed

section \<open>The URL template and the configuration\<close>

text \<open>Claim C4. For a year from 0 to 9999 and a month, day and hour from 0 to 99 (every
  calendar date and hour of the day), \<open>build_url\<close> returns the base, the year as exactly
  four digits, the month and the day as exactly two digits each, the version, the hour as
  exactly two digits and the station followed by \<open>.csv\<close>, separated by slashes. The
  configuration lists 6 stations and the 3 versions NBM4.2, NBM4.1, NBM4.0 in this order,
  looks 3 days back, gives each request 20 seconds, and caches for 300 seconds.\<close>

theorem build_url_template:
  assumes "0 \<le> y" and "y \<le> 9999" and "0 \<le> m" and "m \<le> 99" and "0 \<le> d" and "d \<le> 99"
    and "0 \<le> hh" and "hh \<le> 99"
  shows "build_url y m d hh ver station =
      ''https://apps.gsl.noaa.gov/nbmviewer/data/archive'' @ ''/'' @ four_digits y @ ''/'' @
      two_digits m @ ''/'' @ two_digits d @ ''/'' @ ver @ ''/'' @ two_digits hh @ ''/'' @
      station @ ''.csv'' \<and>
    length (four_digits y) = 4 \<and> length (two_digits m) = 2 \<and> length (two_digits d) = 2 \<and>
    length (two_digits hh) = 2 \<and>
    length STATIONS = 6 \<and> distinct STATIONS \<and>
    NBM_VERSIONS_TO_TRY = [''NBM4.2'', ''NBM4.1'', ''NBM4.0''] \<and>
    DAYS_BACK = 3 \<and> TIMEOUT = 20 \<and>
    url_exists_ttl = 300 \<and> find_latest_csv_ttl = 300 \<and> download_csv_bytes_ttl = 300"
proof -
  have "build_url y m d hh ver station =
      ''https://apps.gsl.noaa.gov/nbmviewer/data/archive'' @ ''/'' @ four_digits y @ ''/'' @
      two_digits m @ ''/'' @ two_digits d @ ''/'' @ ver @ ''/'' @ two_digits hh @ ''/'' @
      station @ ''.csv''"
    using assms by (simp add: build_url_def BASE_def fmt_0d_2 fmt_0d_4)
  moreover have "length (four_digits y) = 4" "length (two_digits m) = 2"
    "length (two_digits d) = 2" "length (two_digits hh) = 2"
    by (simp_all add: four_digits_def two_digits_def)
  moreover have "length STATIONS = 6" "distinct STATIONS"
    by (simp_all add: STATIONS_def)
  moreover have "NBM_VERSIONS_TO_TRY = [''NBM4.2'', ''NBM4.1'', ''NBM4.0'']"
    by (simp add: NBM_VERSIONS_TO_TRY_def)
  moreover have "DAYS_BACK = 3" "TIMEOUT = 20" "url_exists_ttl = 300"
    "find_latest_csv_ttl = 300" "download_csv_bytes_ttl = 300"
    by (simp_all add: DAYS_BACK_def TIMEOUT_def url_exists_ttl_def find_latest_csv_ttl_def
        download_csv_bytes_ttl_def)
  ultimately show ?thesis by blast
qed

theorem build_url_template_witness:
  "build_url 987 3 1 7 ''NBM4.1'' ''KXMR'' =
     ''https://apps.gsl.noaa.gov/nbmviewer/data/archive/0987/03/01/NBM4.1/07/KXMR.csv''"
proof -
  have "build_url 987 3 1 7 ''NBM4.1'' ''KXMR'' =
      ''https://apps.gsl.noaa.gov/nbmviewer/data/archive'' @ ''/'' @ four_digits 987 @ ''/'' @
      two_digits 3 @ ''/'' @ two_digits 1 @ ''/'' @ ''NBM4.1'' @ ''/'' @ two_digits 7 @ ''/'' @
      ''KXMR'' @ ''.csv''"
    using build_url_template [of 987 3 1 7 "''NBM4.1''" "''KXMR''"] by simp
  then show ?thesis
    by (simp add: four_digits_def two_digits_def digit_char_def)
qed

section \<open>The outcomes of the existence check\<close>

text \<open>Claim C2 as stated fails: after a HEAD request answered 405, a fallback GET answered
  with the success status 204 does not count as existence.\<close>

theorem url_exists_get_204_counterexample:
  "requests_head (fixed_env (Date 2024 3 1) 405 204 200) ''u'' =
     Inr \<lparr>status_code = 405, content = ''''\<rparr> \<and>
   requests_get_stream (fixed_env (Date 2024 3 1) 405 204 200) ''u'' =
     Inr \<lparr>status_code = 204, content = ''''\<rparr> \<and>
   is_success 204 \<and>
   \<not> url_exists (fixed_env (Date 2024 3 1) 405 204 200) ''u''"
  by (simp add: url_exists_fixed_env is_success_def) (simp add: fixed_env_def)

text \<open>Claim C2, amended. The existence check answers true when the HEAD request yields
  status 200. When the HEAD request yields 403 or 405, or raises, the check falls back to a
  GET and answers true exactly when that GET yields status 200. Every other outcome yields
  false: a HEAD status other than 200, 403 and 405, and an exception during the fallback
  GET. In particular a HEAD answered 405 followed by a GET answered 200 yields true.\<close>

theorem url_exists_outcomes:
  "(requests_head E u = Inr r \<and> status_code r = 200 \<longrightarrow> url_exists E u) \<and>
   (requests_head E u = Inl e \<or>
    requests_head E u = Inr r \<and> (status_code r = 403 \<or> status_code r = 405) \<longrightarrow>
      url_exists E u = (\<exists>rg. requests_get_stream E u = Inr rg \<and> status_code rg = 200)) \<and>
   (requests_head E u = Inr r \<and> status_code r \<noteq> 200 \<and> status_code r \<noteq> 403 \<and>
    status_code r \<noteq> 405 \<longrightarrow> \<not> url_exists E u) \<and>
   ((requests_head E u = Inl e \<or>
     requests_head E u = Inr r \<and> (status_code r = 403 \<or> status_code r = 405)) \<and>
    requests_get_stream E u = Inl e' \<longrightarrow> \<not> url_exists E u) \<and>
   (requests_head E u = Inr r \<and> status_code r = 405 \<and>
    requests_get_stream E u = Inr rg \<and> status_code rg = 200 \<longrightarrow> url_exists E u)"
  by (auto simp: url_exists_iff split: sum.splits)

theorem url_exists_outcomes_witness:
  "url_exists (fixed_env (Date 2024 3 1) 405 200 200) ''u'' \<and>
   url_exists (fixed_env (Date 2024 3 1) 200 404 200) ''u'' \<and>
   \<not> url_exists (fixed_env (Date 2024 3 1) 404 200 200) ''u'' \<and>
   \<not> url_exists (offline_env (Date 2024 3 1)) ''u''"
  using
    url_exists_outcomes [of "fixed_env (Date 2024 3 1) 405 200 200" "''u''"
      "\<lparr>status_code = 405, content = ''''\<rparr>" RequestException RequestException
      "\<lparr>status_code = 200, content = ''''\<rparr>"]
    url_exists_outcomes [of "fixed_env (Date 2024 3 1) 200 404 200" "''u''"
      "\<lparr>status_code = 200, content = ''''\<rparr>" RequestException RequestException
      "\<lparr>status_code = 404, content = ''''\<rparr>"]
    url_exists_outcomes [of "fixed_env (Date 2024 3 1) 404 200 200" "''u''"
      "\<lparr>status_code = 404, content = ''''\<rparr>" RequestException RequestException
      "\<lparr>status_code = 200, content = ''''\<rparr>"]
    url_exists_outcomes [of "offline_env (Date 2024 3 1)" "''u''"
      "\<lparr>status_code = 0, content = ''''\<rparr>" RequestException RequestException
      "\<lparr>status_code = 0, content = ''''\<rparr>"]
  by (simp add: fixed_env_def offline_env_def)

section \<open>The download\<close>

lemma download_csv_bytes_iff:
  "download_csv_bytes E u =
     (case requests_get E u of
        Inl e \<Rightarrow> Inl e
      | Inr r \<Rightarrow>
          if 400 \<le> status_code r \<and> status_code r < 600 then Inl (HTTPError (status_code r))
          else Inr (content r))"
  by (simp add: download_csv_bytes_def raise_for_status_def split: sum.splits)

lemma find_latest_csv_never_raises:
  "1 < year_of (utcnow_date E) \<Longrightarrow> \<exists>res. fst (find_latest_csv E station) = Inr res"
  by (simp add: find_latest_csv_eq)

lemma sample_run_first:
  "find_latest_csv (fixed_env (Date 2024 3 1) 200 h dl) ''KXMR'' =
   (Inr (Some
      \<lparr>url = ''https://apps.gsl.noaa.gov/nbmviewer/data/archive/2024/03/01/NBM4.2/23/KXMR.csv'',
       year = 2024, month = 3, day = 1, hour = 23, version = ''NBM4.2''\<rparr>),
    [\<lparr>url = ''https://apps.gsl.noaa.gov/nbmviewer/data/archive/2024/03/01/NBM4.2/23/KXMR.csv'',
       year = 2024, month = 3, day = 1, hour = 23, version = ''NBM4.2''\<rparr>])"
proof -
  let ?E = "fixed_env (Date 2024 3 1) 200 h dl"
  let ?xs = "search_order (Date 2024 3 1) ''KXMR''"
  have today: "utcnow_date ?E = Date 2024 3 1" by (simp add: fixed_env_def)
  have y: "1 < year_of (utcnow_date ?E)" by (simp add: today)
  have split: "?xs = take 5 ?xs @ drop 5 ?xs" by simp
  have P: "exists_at ?E = (\<lambda>c. True)"
    by (rule ext) (simp add: exists_at_def url_exists_fixed_env)
  have f: "find (exists_at ?E) (take 5 ?xs) = Some
      \<lparr>url = ''https://apps.gsl.noaa.gov/nbmviewer/data/archive/2024/03/01/NBM4.2/23/KXMR.csv'',
       year = 2024, month = 3, day = 1, hour = 23, version = ''NBM4.2''\<rparr>"
    unfolding P sample_order by simp
  have p: "probes_until (exists_at ?E) (take 5 ?xs) =
     [\<lparr>url = ''https://apps.gsl.noaa.gov/nbmviewer/data/archive/2024/03/01/NBM4.2/23/KXMR.csv'',
       year = 2024, month = 3, day = 1, hour = 23, version = ''NBM4.2''\<rparr>]"
    unfolding P sample_order by simp
  have "find (exists_at ?E) ?xs = Some
      \<lparr>url = ''https://apps.gsl.noaa.gov/nbmviewer/data/archive/2024/03/01/NBM4.2/23/KXMR.csv'',
       year = 2024, month = 3, day = 1, hour = 23, version = ''NBM4.2''\<rparr>"
    by (subst split) (simp only: find_append_case f option.case)
  moreover have "probes_until (exists_at ?E) ?xs =
     [\<lparr>url = ''https://apps.gsl.noaa.gov/nbmviewer/data/archive/2024/03/01/NBM4.2/23/KXMR.csv'',
       year = 2024, month = 3, day = 1, hour = 23, version = ''NBM4.2''\<rparr>]"
    by (subst split) (simp only: probes_until_append f option.case p)
  ultimately show ?thesis
    using find_latest_csv_eq [OF y, of "''KXMR''"] unfolding today by simp
qed

text \<open>Claim C6 as stated fails: a download answered with status 304, which is not a success
  status, raises nothing and returns the body.\<close>

theorem download_status_304_counterexample:
  "requests_get (fixed_env (Date 2024 3 1) 200 200 304) ''u'' =
     Inr \<lparr>status_code = 304, content = ''a,b''\<rparr> \<and>
   \<not> is_success 304 \<and>
   download_csv_bytes (fixed_env (Date 2024 3 1) 200 200 304) ''u'' = Inr ''a,b''"
  by (simp add: download_csv_bytes_iff is_success_def fixed_env_def)

text \<open>Claim C6, amended. The download returns the raw bytes of the response on a success
  status, raises HTTPError on every status from 400 to 599, and returns the bytes on any
  status outside 400 to 599; an exception of the request itself is passed on. An error of
  the download ends the click with that exception. In the search phase errors do not
  surface: a probe whose requests raise counts as a URL that does not exist, and the
  search itself returns a result or \<open>None\<close>.\<close>

theorem download_csv_bytes_outcomes:
  "(requests_get E u = Inr r \<and> is_success (status_code r) \<longrightarrow>
      download_csv_bytes E u = Inr (content r)) \<and>
   (requests_get E u = Inr r \<and> 400 \<le> status_code r \<and> status_code r < 600 \<longrightarrow>
      download_csv_bytes E u = Inl (HTTPError (status_code r))) \<and>
   (requests_get E u = Inr r \<and> (status_code r < 400 \<or> 600 \<le> status_code r) \<longrightarrow>
      download_csv_bytes E u = Inr (content r)) \<and>
   (requests_get E u = Inl e \<longrightarrow> download_csv_bytes E u = Inl e) \<and>
   (fst (find_latest_csv E station) = Inr (Some f) \<and> download_csv_bytes E (url f) = Inl e \<longrightarrow>
      on_click E station = Raised e) \<and>
   (requests_head E u = Inl e1 \<and> requests_get_stream E u = Inl e2 \<longrightarrow> \<not> url_exists E u) \<and>
   (1 < year_of (utcnow_date E) \<longrightarrow> (\<exists>res. fst (find_latest_csv E station) = Inr res))"
proof (intro conjI impI)
  assume "requests_get E u = Inr r \<and> is_success (status_code r)"
  then show "download_csv_bytes E u = Inr (content r)"
    by (simp add: download_csv_bytes_iff is_success_def)
next
  assume "requests_get E u = Inr r \<and> 400 \<le> status_code r \<and> status_code r < 600"
  then show "download_csv_bytes E u = Inl (HTTPError (status_code r))"
    by (simp add: download_csv_bytes_iff)
next
  assume "requests_get E u = Inr r \<and> (status_code r < 400 \<or> 600 \<le> status_code r)"
  then show "download_csv_bytes E u = Inr (content r)"
    by (auto simp: download_csv_bytes_iff)
next
  assume "requests_get E u = Inl e"
  then show "download_csv_bytes E u = Inl e"
    by (simp add: download_csv_bytes_iff)
next
  assume "fst (find_latest_csv E station) = Inr (Some f) \<and> download_csv_bytes E (url f) = Inl e"
  then show "on_click E station = Raised e"
    by (simp add: on_click_def)
next
  assume "requests_head E u = Inl e1 \<and> requests_get_stream E u = Inl e2"
  then show "\<not> url_exists E u"
    by (simp add: url_exists_iff)
next
  assume "1 < year_of (utcnow_date E)"
  then show "\<exists>res. fst (find_latest_csv E station) = Inr res"
    by (rule find_latest_csv_never_raises)
qed

theorem download_csv_bytes_outcomes_witness:
  "download_csv_bytes (fixed_env (Date 2024 3 1) 200 200 500)
     ''https://apps.gsl.noaa.gov/nbmviewer/data/archive/2024/03/01/NBM4.2/23/KXMR.csv'' =
     Inl (HTTPError 500) \<and>
   on_click (fixed_env (Date 2024 3 1) 200 200 500) ''KXMR'' = Raised (HTTPError 500) \<and>
   download_csv_bytes (fixed_env (Date 2024 3 1) 200 200 200)
     ''https://apps.gsl.noaa.gov/nbmviewer/data/archive/2024/03/01/NBM4.2/23/KXMR.csv'' =
     Inr ''a,b'' \<and>
   \<not> url_exists (offline_env (Date 2024 3 1)) ''u'' \<and>
   (\<exists>res. fst (find_latest_csv (offline_env (Date 2024 3 1)) ''KXMR'') = Inr res)"
proof -
  let ?u = "''https://apps.gsl.noaa.gov/nbmviewer/data/archive/2024/03/01/NBM4.2/23/KXMR.csv''"
  let ?f = "\<lparr>url = ?u, year = 2024, month = 3, day = 1, hour = 23, version = ''NBM4.2''\<rparr>"
  let ?E = "fixed_env (Date 2024 3 1) 200 200 500"
  let ?r = "\<lparr>status_code = 500, content = ''a,b''\<rparr>"
  have get: "requests_get ?E ?u = Inr ?r" by (simp add: fixed_env_def)
  have run: "fst (find_latest_csv ?E ''KXMR'') = Inr (Some ?f)" by (simp add: sample_run_first)
  note a = download_csv_bytes_outcomes [of ?E ?u ?r RequestException "''KXMR''" ?f
      RequestException RequestException]
  from a get have dl: "download_csv_bytes ?E ?u = Inl (HTTPError 500)" by simp
  note b = download_csv_bytes_outcomes [of ?E ?u ?r "HTTPError 500" "''KXMR''" ?f
      RequestException RequestException]
  from b run dl have click: "on_click ?E ''KXMR'' = Raised (HTTPError 500)" by simp
  let ?E2 = "fixed_env (Date 2024 3 1) 200 200 200"
  let ?r2 = "\<lparr>status_code = 200, content = ''a,b''\<rparr>"
  have get2: "requests_get ?E2 ?u = Inr ?r2" by (simp add: fixed_env_def)
  note c = download_csv_bytes_outcomes [of ?E2 ?u ?r2 RequestException "''KXMR''" ?f
      RequestException RequestException]
  from c get2 have ok: "download_csv_bytes ?E2 ?u = Inr ''a,b''" by (simp add: is_success_def)
  let ?O = "offline_env (Date 2024 3 1)"
  note d = download_csv_bytes_outcomes [of ?O "''u''" ?r RequestException "''KXMR''" ?f
      RequestException RequestException]
  have off: "requests_head ?O ''u'' = Inl RequestException"
    "requests_get_stream ?O ''u'' = Inl RequestException" "1 < year_of (utcnow_date ?O)"
    by (simp_all add: offline_env_def)
  from d off have "\<not> url_exists ?O ''u''"
    and "\<exists>res. fst (find_latest_csv ?O ''KXMR'') = Inr res" by blast+
  with dl click ok show ?thesis by blast
qed

section \<open>The first day of the calendar\<close>

text \<open>On 0001-01-01 the second day of the lookback does not exist: when no URL of the
  first day exists, the subtraction raises OverflowError, which nothing catches. The
  results above that assume a year after 1 depend on it.\<close>

lemma find_latest_csv_overflow:
  "fst (find_latest_csv (fixed_env (Date 1 1 1) 404 404 404) station) = Inl OverflowError"
proof -
  let ?E = "fixed_env (Date 1 1 1) 404 404 404"
  have today: "utcnow_date ?E = Date 1 1 1" by (simp add: fixed_env_def)
  have absent: "find (exists_at ?E) xs = None" for xs
    by (simp add: find_none_iff exists_at_def url_exists_fixed_env)
  show ?thesis
    by (simp add: find_latest_csv_def today offsets_eq hours_loop_eq absent MINDATE_def)
qed

end
